theory Spec2Isabelle
  imports Main
begin

section \<open>Nodes, pointers and the store\<close>

text \<open>
  A node pointer is an address (\<open>nat\<close>) or null (\<open>None\<close>). The store maps every
  address to the four linkage fields of \<open>rbtree_node\<close>. The sentinel \<open>head_\<close> of a
  tree is a node of the store like any other; a tree is named by the address of its
  sentinel. The payload of a record is its key: \<open>keys a\<close> is \<open>Some k\<close> when address
  \<open>a\<close> holds a record of type \<open>T\<close> with key \<open>k\<close>, and \<open>None\<close> when it holds no
  record (a sentinel, for instance). The comparator is \<open>(<)\<close> of a linear order.
\<close>

record node =
  left :: "nat option"
  right :: "nat option"
  is_red :: bool
  parent :: "nat option"

type_synonym heap = "nat \<Rightarrow> node"

datatype error = NullDeref | AssertFailed | NotARecord | Thrown nat

datatype ('s, 'r) step = Continue 's | Break 'r

definition bindE :: "error + 'a \<Rightarrow> ('a \<Rightarrow> error + 'b) \<Rightarrow> error + 'b" where
  "bindE m f = (case m of Inl e \<Rightarrow> Inl e | Inr x \<Rightarrow> f x)"

definition bindR :: "(error + 'a) option \<Rightarrow> ('a \<Rightarrow> (error + 'b) option) \<Rightarrow> (error + 'b) option" where
  "bindR m f = (case m of None \<Rightarrow> None | Some (Inl e) \<Rightarrow> Some (Inl e) | Some (Inr x) \<Rightarrow> f x)"

definition deref :: "nat option \<Rightarrow> error + nat" where
  "deref p = (case p of None \<Rightarrow> Inl NullDeref | Some a \<Rightarrow> Inr a)"

definition assert_ptr :: "nat option \<Rightarrow> error + nat" where
  "assert_ptr p = (case p of None \<Rightarrow> Inl AssertFailed | Some a \<Rightarrow> Inr a)"

text \<open>A \<open>while\<close> loop: the body either continues with a new state, leaves the loop
  with a result, or fails. A loop that runs forever has the value \<open>None\<close>.\<close>

partial_function (option) iterate ::
  "('s \<Rightarrow> error + ('s, 'r) step) \<Rightarrow> 's \<Rightarrow> (error + 'r) option" where
  "iterate body s =
     (case body s of
        Inl e \<Rightarrow> Some (Inl e)
      | Inr st \<Rightarrow> (case st of Continue s' \<Rightarrow> iterate body s' | Break r \<Rightarrow> Some (Inr r)))"

declare iterate.simps [code]

definition set_red :: "nat \<Rightarrow> heap \<Rightarrow> heap" where
  "set_red a h = h(a := (h a)\<lparr>is_red := True\<rparr>)"

definition set_black :: "nat \<Rightarrow> heap \<Rightarrow> heap" where
  "set_black a h = h(a := (h a)\<lparr>is_red := False\<rparr>)"

definition set_red_val :: "nat \<Rightarrow> bool \<Rightarrow> heap \<Rightarrow> heap" where
  "set_red_val a v h = (if v then set_red a h else set_black a h)"

definition set_parent :: "nat \<Rightarrow> nat option \<Rightarrow> heap \<Rightarrow> heap" where
  "set_parent a p h = h(a := (h a)\<lparr>parent := p\<rparr>)"

definition set_left :: "nat \<Rightarrow> nat option \<Rightarrow> heap \<Rightarrow> heap" where
  "set_left a p h = h(a := (h a)\<lparr>left := p\<rparr>)"

definition set_right :: "nat \<Rightarrow> nat option \<Rightarrow> heap \<Rightarrow> heap" where
  "set_right a p h = h(a := (h a)\<lparr>right := p\<rparr>)"

definition is_black :: "heap \<Rightarrow> nat \<Rightarrow> bool" where
  "is_black h a = (\<not> is_red (h a))"

definition unlinked :: "heap \<Rightarrow> nat \<Rightarrow> bool" where
  "unlinked h a = (parent (h a) = None \<and> left (h a) = None \<and> right (h a) = None)"

definition reset :: "nat \<Rightarrow> heap \<Rightarrow> heap" where
  "reset a h = h(a := \<lparr>left = None, right = None, is_red = False, parent = None\<rparr>)"

definition reset_node :: "nat \<Rightarrow> heap \<Rightarrow> heap" where
  "reset_node a h = set_right a None (set_left a None (set_parent a None h))"

text \<open>The constructor of \<open>rbtree\<close>: a default node whose \<open>left\<close> and \<open>right\<close> are
  the sentinel itself.\<close>

definition new_tree :: "nat \<Rightarrow> heap \<Rightarrow> heap" where
  "new_tree head h = h(head := \<lparr>left = Some head, right = Some head, is_red = False, parent = None\<rparr>)"

definition to_key :: "(nat \<Rightarrow> 'k option) \<Rightarrow> nat \<Rightarrow> error + 'k" where
  "to_key keys a = (case keys a of None \<Rightarrow> Inl NotARecord | Some k \<Rightarrow> Inr k)"

definition root :: "nat \<Rightarrow> heap \<Rightarrow> nat option" where
  "root head h = parent (h head)"

definition set_root :: "nat \<Rightarrow> nat option \<Rightarrow> heap \<Rightarrow> heap" where
  "set_root head n h =
     set_parent head n (case n of None \<Rightarrow> h | Some a \<Rightarrow> set_parent a (Some head) h)"

definition is_empty :: "nat \<Rightarrow> heap \<Rightarrow> bool" where
  "is_empty head h = (root head h = None)"

definition begin_it :: "nat \<Rightarrow> heap \<Rightarrow> nat option" where
  "begin_it head h = left (h head)"

definition end_it :: "nat \<Rightarrow> nat option" where
  "end_it head = Some head"

section \<open>Rotations and transplant\<close>

text \<open>The chain
  \<^verbatim>\<open>if (u->parent() == &head_) set_root(v);
  else if (u == u->parent()->left) u->parent()->left = v;
  else u->parent()->right = v;\<close>
  that \<open>rotate_left\<close>, \<open>rotate_right\<close> and \<open>transplant\<close> share.\<close>

definition replace_child :: "nat \<Rightarrow> nat \<Rightarrow> nat option \<Rightarrow> heap \<Rightarrow> error + heap" where
  "replace_child head u v h =
     (if parent (h u) = Some head then Inr (set_root head v h)
      else bindE (deref (parent (h u))) (\<lambda>p.
        if left (h p) = Some u then Inr (set_left p v h) else Inr (set_right p v h)))"

definition rotate_left :: "nat \<Rightarrow> nat \<Rightarrow> heap \<Rightarrow> error + heap" where
  "rotate_left head x h =
     bindE (assert_ptr (right (h x))) (\<lambda>y.
       let h1 = set_right x (left (h y)) h;
           h2 = (case left (h1 y) of None \<Rightarrow> h1 | Some c \<Rightarrow> set_parent c (Some x) h1);
           h3 = set_parent y (parent (h2 x)) h2
       in bindE (replace_child head x (Some y) h3) (\<lambda>h4.
            Inr (set_left y (Some x) (set_parent x (Some y) h4))))"

definition rotate_right :: "nat \<Rightarrow> nat \<Rightarrow> heap \<Rightarrow> error + heap" where
  "rotate_right head x h =
     bindE (assert_ptr (left (h x))) (\<lambda>y.
       let h1 = set_left x (right (h y)) h;
           h2 = (case right (h1 y) of None \<Rightarrow> h1 | Some c \<Rightarrow> set_parent c (Some x) h1);
           h3 = set_parent y (parent (h2 x)) h2
       in bindE (replace_child head x (Some y) h3) (\<lambda>h4.
            Inr (set_right y (Some x) (set_parent x (Some y) h4))))"

definition transplant :: "nat \<Rightarrow> nat \<Rightarrow> nat option \<Rightarrow> heap \<Rightarrow> error + heap" where
  "transplant head u v h =
     bindE (replace_child head u v h) (\<lambda>h1.
       Inr (case v of None \<Rightarrow> h1 | Some b \<Rightarrow> set_parent b (parent (h1 u)) h1))"

section \<open>Search\<close>

definition find_step ::
  "(nat \<Rightarrow> 'k::linorder option) \<Rightarrow> nat \<Rightarrow> heap \<Rightarrow> 'k \<Rightarrow> nat option \<Rightarrow> error + (nat option, nat option) step" where
  "find_step keys head h k x =
     (case x of
        None \<Rightarrow> Inr (Break (end_it head))
      | Some a \<Rightarrow> bindE (to_key keys a) (\<lambda>ka.
          if k < ka then Inr (Continue (left (h a)))
          else if ka < k then Inr (Continue (right (h a)))
          else Inr (Break (Some a))))"

definition find_node :: "(nat \<Rightarrow> 'k::linorder option) \<Rightarrow> nat \<Rightarrow> heap \<Rightarrow> 'k \<Rightarrow> (error + nat option) option" where
  "find_node keys head h k = iterate (find_step keys head h k) (root head h)"

definition contains :: "(nat \<Rightarrow> 'k::linorder option) \<Rightarrow> nat \<Rightarrow> heap \<Rightarrow> 'k \<Rightarrow> (error + bool) option" where
  "contains keys head h k = bindR (find_node keys head h k) (\<lambda>it. Some (Inr (end_it head \<noteq> it)))"

definition find_minimum_step :: "heap \<Rightarrow> nat \<Rightarrow> error + (nat, nat) step" where
  "find_minimum_step h x = (case left (h x) of None \<Rightarrow> Inr (Break x) | Some l \<Rightarrow> Inr (Continue l))"

definition find_minimum :: "heap \<Rightarrow> nat \<Rightarrow> (error + nat) option" where
  "find_minimum h x = iterate (find_minimum_step h) x"

definition find_maximum_step :: "heap \<Rightarrow> nat \<Rightarrow> error + (nat, nat) step" where
  "find_maximum_step h x = (case right (h x) of None \<Rightarrow> Inr (Break x) | Some r \<Rightarrow> Inr (Continue r))"

definition find_maximum :: "heap \<Rightarrow> nat \<Rightarrow> (error + nat) option" where
  "find_maximum h x = iterate (find_maximum_step h) x"

section \<open>Insertion\<close>

definition black_case_left :: "nat \<Rightarrow> nat \<Rightarrow> nat \<Rightarrow> heap \<Rightarrow> error + (nat \<times> heap, heap) step" where
  "black_case_left head z p h =
     bindE (if right (h p) = Some z then bindE (rotate_left head p h) (\<lambda>h1. Inr (p, h1))
            else Inr (z, h)) (\<lambda>(z1, h1).
     bindE (deref (parent (h1 z1))) (\<lambda>p1.
     bindE (deref (parent (h1 p1))) (\<lambda>g1.
     bindE (rotate_right head g1 (set_red g1 (set_black p1 h1))) (\<lambda>h2.
       Inr (Continue (z1, h2))))))"

definition black_case_right :: "nat \<Rightarrow> nat \<Rightarrow> nat \<Rightarrow> heap \<Rightarrow> error + (nat \<times> heap, heap) step" where
  "black_case_right head z p h =
     bindE (if left (h p) = Some z then bindE (rotate_right head p h) (\<lambda>h1. Inr (p, h1))
            else Inr (z, h)) (\<lambda>(z1, h1).
     bindE (deref (parent (h1 z1))) (\<lambda>p1.
     bindE (deref (parent (h1 p1))) (\<lambda>g1.
     bindE (rotate_left head g1 (set_red g1 (set_black p1 h1))) (\<lambda>h2.
       Inr (Continue (z1, h2))))))"

definition insert_fixup_step :: "nat \<Rightarrow> nat \<times> heap \<Rightarrow> error + (nat \<times> heap, heap) step" where
  "insert_fixup_step head = (\<lambda>(z, h).
     bindE (deref (parent (h z))) (\<lambda>p.
       if p \<noteq> head \<and> is_red (h p) \<and> parent (h p) \<noteq> Some head then
         bindE (deref (parent (h p))) (\<lambda>g.
           if left (h g) = Some p then
             (case right (h g) of
                None \<Rightarrow> black_case_left head z p h
              | Some y \<Rightarrow>
                  if is_red (h y)
                  then Inr (Continue (g, set_red g (set_black y (set_black p h))))
                  else black_case_left head z p h)
           else
             (case left (h g) of
                None \<Rightarrow> black_case_right head z p h
              | Some y \<Rightarrow>
                  if is_red (h y)
                  then Inr (Continue (g, set_red g (set_black y (set_black p h))))
                  else black_case_right head z p h))
       else Inr (Break h)))"

definition insert_fixup :: "nat \<Rightarrow> nat \<Rightarrow> heap \<Rightarrow> (error + heap) option" where
  "insert_fixup head z h =
     bindR (iterate (insert_fixup_step head) (z, h)) (\<lambda>h1.
       Some (bindE (deref (root head h1)) (\<lambda>r. Inr (set_black r h1))))"

definition insert_parent ::
  "(nat \<Rightarrow> 'k::linorder option) \<Rightarrow> nat \<Rightarrow> nat option \<Rightarrow> nat \<Rightarrow> heap \<Rightarrow> (error + (nat option \<times> bool) \<times> heap) option" where
  "insert_parent keys head y z h =
     bindR (Some (case y of
        None \<Rightarrow>
          (let h1 = set_root head (Some z) h;
               h2 = set_left head (root head h1) h1
           in Inr (set_right head (root head h2) h2))
      | Some ya \<Rightarrow>
          bindE (to_key keys z) (\<lambda>kz. bindE (to_key keys ya) (\<lambda>ky.
            if kz < ky then
              (let h1 = set_left ya (Some z) (set_parent z (Some ya) h)
               in Inr (if left (h1 head) = Some ya then set_left head (Some z) h1 else h1))
            else
              (let h1 = set_right ya (Some z) (set_parent z (Some ya) h)
               in Inr (if right (h1 head) = Some ya then set_right head (Some z) h1 else h1)))))) (\<lambda>h3.
     bindR (insert_fixup head z (set_red z (set_right z None (set_left z None h3)))) (\<lambda>h4.
       Some (Inr ((Some z, True), h4))))"

datatype descent = Found nat | Vacant "nat option"

definition descend_step ::
  "(nat \<Rightarrow> 'k::linorder option) \<Rightarrow> heap \<Rightarrow> error + 'k \<Rightarrow> nat option \<times> nat option \<Rightarrow> error + (nat option \<times> nat option, descent) step" where
  "descend_step keys h key = (\<lambda>(y, x).
     case x of
       None \<Rightarrow> Inr (Break (Vacant y))
     | Some a \<Rightarrow> bindE key (\<lambda>k. bindE (to_key keys a) (\<lambda>ka.
         if k < ka then Inr (Continue (Some a, left (h a)))
         else if ka < k then Inr (Continue (Some a, right (h a)))
         else Inr (Break (Found a)))))"

definition insert_value ::
  "(nat \<Rightarrow> 'k::linorder option) \<Rightarrow> nat \<Rightarrow> nat \<Rightarrow> heap \<Rightarrow> (error + (nat option \<times> bool) \<times> heap) option" where
  "insert_value keys head v h =
     bindR (iterate (descend_step keys h (to_key keys v)) (None, root head h)) (\<lambda>d.
       case d of
         Found x \<Rightarrow> Some (Inr ((Some x, False), h))
       | Vacant y \<Rightarrow> insert_parent keys head y v (reset v h))"

text \<open>The factory \<open>fn\<close> of \<open>insert_for_key\<close> is a callback of the caller: it returns
  the address of a record and changes the caller's own state \<open>w\<close>.\<close>

definition insert_for_key ::
  "(nat \<Rightarrow> 'k::linorder option) \<Rightarrow> nat \<Rightarrow> 'k \<Rightarrow> ('w \<Rightarrow> nat \<times> 'w) \<Rightarrow> heap \<times> 'w \<Rightarrow> (error + (nat option \<times> bool) \<times> heap \<times> 'w) option" where
  "insert_for_key keys head key fn = (\<lambda>(h, w).
     bindR (iterate (descend_step keys h (Inr key)) (None, root head h)) (\<lambda>d.
       case d of
         Found x \<Rightarrow> Some (Inr ((Some x, False), h, w))
       | Vacant y \<Rightarrow>
           (case fn w of (z, w1) \<Rightarrow>
              bindR (insert_parent keys head y z h) (\<lambda>(r, h1). Some (Inr (r, h1, w1))))))"

section \<open>Deletion\<close>

definition black_or_null :: "heap \<Rightarrow> nat option \<Rightarrow> bool" where
  "black_or_null h p = (case p of None \<Rightarrow> True | Some a \<Rightarrow> is_black h a)"

text \<open>One round of the loop of \<open>erase_fixup\<close> when \<open>x\<close> is the left child of \<open>p\<close>,
  in the order of the source: \<open>sibling_left\<close> reads the sibling \<open>w\<close> and, when it is red,
  rotates it above \<open>p\<close>; \<open>nephew_left\<close> makes the right child of \<open>w\<close> red when only the
  left one is; \<open>finish_left\<close> recolours and rotates \<open>w\<close> above \<open>p\<close>. The \<open>_right\<close>
  functions are the mirror image (the \<open>else\<close> branch).\<close>

definition sibling_left :: "nat \<Rightarrow> nat \<Rightarrow> nat \<Rightarrow> heap \<Rightarrow> error + nat \<times> heap" where
  "sibling_left head x p h =
     bindE (assert_ptr (right (h p))) (\<lambda>w0.
       if is_red (h w0) then
         bindE (rotate_left head p (set_red p (set_black w0 h))) (\<lambda>h1.
         bindE (deref (parent (h1 x))) (\<lambda>p1.
         bindE (assert_ptr (right (h1 p1))) (\<lambda>w1. Inr (w1, h1))))
       else Inr (w0, h))"

definition nephew_left :: "nat \<Rightarrow> nat \<Rightarrow> nat \<Rightarrow> heap \<Rightarrow> error + nat \<times> heap" where
  "nephew_left head x w h2 =
     (if black_or_null h2 (right (h2 w)) then
        bindE (deref (left (h2 w))) (\<lambda>wl.
        bindE (rotate_right head w (set_red w (set_black wl h2))) (\<lambda>h3.
        bindE (deref (parent (h3 x))) (\<lambda>p3.
        bindE (assert_ptr (right (h3 p3))) (\<lambda>w3. Inr (w3, h3)))))
      else Inr (w, h2))"

definition finish_left :: "nat \<Rightarrow> nat \<Rightarrow> nat \<Rightarrow> heap \<Rightarrow> error + (nat \<times> heap, nat \<times> heap) step" where
  "finish_left head x w4 h4 =
     bindE (deref (parent (h4 x))) (\<lambda>p4.
       let h5 = set_black p4 (set_red_val w4 (is_red (h4 p4)) h4);
           h6 = (case right (h5 w4) of None \<Rightarrow> h5 | Some wr \<Rightarrow> set_black wr h5)
       in bindE (rotate_left head p4 h6) (\<lambda>h7.
          bindE (deref (root head h7)) (\<lambda>r. Inr (Continue (r, h7)))))"

definition erase_fixup_left :: "nat \<Rightarrow> nat \<Rightarrow> nat \<Rightarrow> heap \<Rightarrow> error + (nat \<times> heap, nat \<times> heap) step" where
  "erase_fixup_left head x p h =
     bindE (sibling_left head x p h) (\<lambda>(w, h2).
       if black_or_null h2 (left (h2 w)) \<and> black_or_null h2 (right (h2 w)) then
         bindE (deref (parent (h2 x))) (\<lambda>p2. Inr (Continue (p2, set_red w h2)))
       else bindE (nephew_left head x w h2) (\<lambda>(w4, h4). finish_left head x w4 h4))"

definition sibling_right :: "nat \<Rightarrow> nat \<Rightarrow> nat \<Rightarrow> heap \<Rightarrow> error + nat \<times> heap" where
  "sibling_right head x p h =
     bindE (assert_ptr (left (h p))) (\<lambda>w0.
       if is_red (h w0) then
         bindE (rotate_right head p (set_red p (set_black w0 h))) (\<lambda>h1.
         bindE (deref (parent (h1 x))) (\<lambda>p1.
         bindE (assert_ptr (left (h1 p1))) (\<lambda>w1. Inr (w1, h1))))
       else Inr (w0, h))"

definition nephew_right :: "nat \<Rightarrow> nat \<Rightarrow> nat \<Rightarrow> heap \<Rightarrow> error + nat \<times> heap" where
  "nephew_right head x w h2 =
     (if black_or_null h2 (left (h2 w)) then
        bindE (deref (right (h2 w))) (\<lambda>wr.
        bindE (rotate_left head w (set_red w (set_black wr h2))) (\<lambda>h3.
        bindE (deref (parent (h3 x))) (\<lambda>p3.
        bindE (assert_ptr (left (h3 p3))) (\<lambda>w3. Inr (w3, h3)))))
      else Inr (w, h2))"

definition finish_right :: "nat \<Rightarrow> nat \<Rightarrow> nat \<Rightarrow> heap \<Rightarrow> error + (nat \<times> heap, nat \<times> heap) step" where
  "finish_right head x w4 h4 =
     bindE (deref (parent (h4 x))) (\<lambda>p4.
       let h5 = set_black p4 (set_red_val w4 (is_red (h4 p4)) h4);
           h6 = (case left (h5 w4) of None \<Rightarrow> h5 | Some wl \<Rightarrow> set_black wl h5)
       in bindE (rotate_right head p4 h6) (\<lambda>h7.
          bindE (deref (root head h7)) (\<lambda>r. Inr (Continue (r, h7)))))"

definition erase_fixup_right :: "nat \<Rightarrow> nat \<Rightarrow> nat \<Rightarrow> heap \<Rightarrow> error + (nat \<times> heap, nat \<times> heap) step" where
  "erase_fixup_right head x p h =
     bindE (sibling_right head x p h) (\<lambda>(w, h2).
       if black_or_null h2 (right (h2 w)) \<and> black_or_null h2 (left (h2 w)) then
         bindE (deref (parent (h2 x))) (\<lambda>p2. Inr (Continue (p2, set_red w h2)))
       else bindE (nephew_right head x w h2) (\<lambda>(w4, h4). finish_right head x w4 h4))"

definition erase_fixup_step :: "nat \<Rightarrow> nat \<times> heap \<Rightarrow> error + (nat \<times> heap, nat \<times> heap) step" where
  "erase_fixup_step head = (\<lambda>(x, h).
     if root head h \<noteq> Some x \<and> is_black h x then
       bindE (deref (parent (h x))) (\<lambda>p.
         if left (h p) = Some x then erase_fixup_left head x p h
         else erase_fixup_right head x p h)
     else Inr (Break (x, h)))"

definition erase_fixup :: "nat \<Rightarrow> nat \<Rightarrow> heap \<Rightarrow> (error + heap) option" where
  "erase_fixup head x h =
     bindR (iterate (erase_fixup_step head) (x, h)) (\<lambda>(x1, h1). Some (Inr (set_black x1 h1)))"

text \<open>\<open>erase_node\<close>, in the order of the source: \<open>erase_caches\<close> is the three
  statements on the sentinel (the root pointer is nulled when \<open>z\<close> is the root, the cached
  minimum and maximum move off \<open>z\<close>); \<open>erase_unlink\<close> is the \<open>if\<close> chain that takes \<open>z\<close>
  out, with \<open>splice_successor\<close> and \<open>take_place\<close> the two halves of its last branch; it
  returns \<open>x\<close>, \<open>y_is_red\<close> and the store.\<close>

definition erase_caches :: "nat \<Rightarrow> nat \<Rightarrow> heap \<Rightarrow> (error + heap) option" where
  "erase_caches head z h =
     (let h1 = (if parent (h head) = Some z then set_parent head None h else h) in
      bindR (if left (h1 head) = Some z then
               (case right (h1 z) of
                  None \<Rightarrow> Some (Inr (set_left head (parent (h1 z)) h1))
                | Some r \<Rightarrow> bindR (find_minimum h1 r) (\<lambda>m. Some (Inr (set_left head (Some m) h1))))
             else Some (Inr h1)) (\<lambda>h2.
        if right (h2 head) = Some z then
          (case left (h2 z) of
             None \<Rightarrow> Some (Inr (set_right head (parent (h2 z)) h2))
           | Some l \<Rightarrow> bindR (find_maximum h2 l) (\<lambda>m. Some (Inr (set_right head (Some m) h2))))
        else Some (Inr h2)))"

definition splice_successor :: "nat \<Rightarrow> nat \<Rightarrow> nat \<Rightarrow> heap \<Rightarrow> error + heap" where
  "splice_successor head z y h3 =
     (if parent (h3 y) \<noteq> Some z then
        bindE (transplant head y (right (h3 y)) h3) (\<lambda>h4.
          let h5 = set_right y (right (h4 z)) h4
          in bindE (deref (right (h5 y))) (\<lambda>yr. Inr (set_parent yr (Some y) h5)))
      else Inr h3)"

definition take_place :: "nat \<Rightarrow> nat \<Rightarrow> nat \<Rightarrow> heap \<Rightarrow> error + heap" where
  "take_place head z y h6 =
     bindE (transplant head z (Some y) h6) (\<lambda>h7.
       let h8 = set_left y (left (h7 z)) h7
       in bindE (deref (left (h8 y))) (\<lambda>yl.
            let h9 = set_parent yl (Some y) h8
            in Inr (set_red_val y (is_red (h9 z)) h9)))"

definition erase_unlink :: "nat \<Rightarrow> nat \<Rightarrow> bool \<Rightarrow> heap \<Rightarrow> (error + nat option \<times> bool \<times> heap) option" where
  "erase_unlink head z z_is_red h3 =
     (if left (h3 z) = None then
        Some (bindE (transplant head z (right (h3 z)) h3) (\<lambda>h4. Inr (right (h3 z), z_is_red, h4)))
      else if right (h3 z) = None then
        Some (bindE (transplant head z (left (h3 z)) h3) (\<lambda>h4. Inr (left (h3 z), z_is_red, h4)))
      else
        bindR (Some (deref (right (h3 z)))) (\<lambda>zr.
        bindR (find_minimum h3 zr) (\<lambda>y.
          Some (bindE (splice_successor head z y h3) (\<lambda>h6.
                bindE (take_place head z y h6) (\<lambda>h10.
                  Inr (right (h3 y), is_red (h3 y), h10)))))))"

definition erase_node :: "nat \<Rightarrow> nat \<Rightarrow> heap \<Rightarrow> (error + heap) option" where
  "erase_node head z h =
     bindR (erase_caches head z h) (\<lambda>h3.
     bindR (erase_unlink head z (is_red (h z)) h3) (\<lambda>(x, y_is_red, h10).
       case x of
         None \<Rightarrow> Some (Inr h10)
       | Some xa \<Rightarrow> if \<not> y_is_red then erase_fixup head xa h10 else Some (Inr h10)))"

definition erase ::
  "(nat \<Rightarrow> 'k::linorder option) \<Rightarrow> nat \<Rightarrow> 'k \<Rightarrow> heap \<Rightarrow> (error + nat option \<times> heap) option" where
  "erase keys head key h =
     bindR (find_node keys head h key) (\<lambda>it.
       if it = end_it head then Some (Inr (None, h))
       else bindR (Some (deref it)) (\<lambda>z.
            bindR (erase_node head z h) (\<lambda>h1.
            bindR (Some (to_key keys z)) (\<lambda>_. Some (Inr (Some z, reset_node z h1))))))"

section \<open>Clearing\<close>

definition clear :: "nat \<Rightarrow> heap \<Rightarrow> heap" where
  "clear head h = set_right head None (set_left head None (set_parent head (Some head) h))"

text \<open>The disposer is a callback of the caller; the model records, in order, the
  records it is called on. The loop of \<open>clear_and_dispose_helper\<close> and the loop of the
  rollback in \<open>clone\<close> are the same code.\<close>

definition dispose_step ::
  "(nat \<Rightarrow> 'k option) \<Rightarrow> nat option \<times> heap \<times> nat list \<Rightarrow> error + (nat option \<times> heap \<times> nat list, heap \<times> nat list) step" where
  "dispose_step keys = (\<lambda>(x, h, ds).
     case x of
       None \<Rightarrow> Inr (Break (h, ds))
     | Some a \<Rightarrow>
        (case left (h a) of
           Some s \<Rightarrow> Inr (Continue (Some s, set_right s (Some a) (set_left a (right (h s)) h), ds))
         | None \<Rightarrow> bindE (to_key keys a) (\<lambda>_. Inr (Continue (right (h a), h, ds @ [a])))))"

definition clear_and_dispose_helper ::
  "(nat \<Rightarrow> 'k option) \<Rightarrow> nat option \<Rightarrow> heap \<Rightarrow> (error + heap \<times> nat list) option" where
  "clear_and_dispose_helper keys x h = iterate (dispose_step keys) (x, h, [])"

definition clear_and_dispose ::
  "(nat \<Rightarrow> 'k option) \<Rightarrow> nat \<Rightarrow> heap \<Rightarrow> (error + heap \<times> nat list) option" where
  "clear_and_dispose keys head h =
     bindR (clear_and_dispose_helper keys (root head h) h) (\<lambda>(h1, ds).
       Some (Inr (set_right head None (set_left head None (set_root head None h1)), ds)))"

section \<open>Iterators\<close>

definition climb_right_step :: "heap \<Rightarrow> nat \<times> nat option \<Rightarrow> error + (nat \<times> nat option, nat \<times> nat) step" where
  "climb_right_step h = (\<lambda>(curr, nxt).
     bindE (deref nxt) (\<lambda>n.
       if right (h n) = Some curr then Inr (Continue (n, parent (h n)))
       else Inr (Break (curr, n))))"

definition climb_left_step :: "heap \<Rightarrow> nat \<times> nat option \<Rightarrow> error + (nat \<times> nat option, nat \<times> nat) step" where
  "climb_left_step h = (\<lambda>(curr, nxt).
     bindE (deref nxt) (\<lambda>n.
       if left (h n) = Some curr then Inr (Continue (n, parent (h n)))
       else Inr (Break (curr, n))))"

text \<open>\<open>rbtree_iterator::next\<close> and \<open>rbtree_iterator::prev\<close>; the inner loops that
  walk down are those of \<open>find_minimum\<close> and \<open>find_maximum\<close>.\<close>

definition next_it :: "heap \<Rightarrow> nat option \<Rightarrow> (error + nat option) option" where
  "next_it h it =
     bindR (Some (deref it)) (\<lambda>curr.
       case right (h curr) of
         Some r \<Rightarrow> bindR (find_minimum h r) (\<lambda>m. Some (Inr (Some m)))
       | None \<Rightarrow>
           bindR (iterate (climb_right_step h) (curr, parent (h curr))) (\<lambda>(c, n).
             Some (Inr (if right (h c) = Some n then Some c else Some n))))"

definition prev_it :: "heap \<Rightarrow> nat option \<Rightarrow> (error + nat option) option" where
  "prev_it h it =
     bindR (Some (deref it)) (\<lambda>curr.
       case left (h curr) of
         Some l \<Rightarrow> bindR (find_maximum h l) (\<lambda>m. Some (Inr (Some m)))
       | None \<Rightarrow>
           bindR (iterate (climb_left_step h) (curr, parent (h curr))) (\<lambda>(c, n).
             Some (Inr (if right (h c) = Some n then Some c else Some n))))"

text \<open>The traversal \<^verbatim>\<open>for (it = begin(); it != end(); ++it)\<close>, collecting the
  records it visits.\<close>

partial_function (option) walk :: "nat \<Rightarrow> heap \<Rightarrow> nat option \<Rightarrow> nat list \<Rightarrow> (error + nat list) option" where
  "walk head h it acc =
     (if it = end_it head then Some (Inr acc)
      else case it of
        None \<Rightarrow> Some (Inl NullDeref)
      | Some a \<Rightarrow>
         (case next_it h it of
            None \<Rightarrow> None
          | Some (Inl e) \<Rightarrow> Some (Inl e)
          | Some (Inr it') \<Rightarrow> walk head h it' (acc @ [a])))"

declare walk.simps [code]

definition in_order :: "nat \<Rightarrow> heap \<Rightarrow> (error + nat list) option" where
  "in_order head h = walk head h (begin_it head h) []"

section \<open>Clone\<close>

text \<open>The cloner is a callback of the caller: for the address of a record of the
  original it either raises (\<open>Inl\<close>) or returns the address of a new record, whose
  linkage fields are whatever the store holds there. \<open>finally\<close> is not defined in the
  repository's sources.

  Modelled from the spec: \<open>finally\<close> is a scope guard, its function runs when the
  scope is left, also by an exception, which then propagates to the caller.
  The result \<open>rv\<close> is built in place at the address \<open>rv\<close>; when the cloner raises,
  the rollback runs, \<open>rv\<close> is destroyed (its destructor calls \<open>clear\<close>) and the
  exception reaches the caller: \<open>RolledBack e h ds\<close>, with the final store and the
  records the disposer was called on.\<close>

datatype clone_result = Cloned heap | RolledBack error heap "nat list"

definition clone_up :: "nat \<Rightarrow> nat \<Rightarrow> nat \<Rightarrow> heap \<Rightarrow> error + (nat option \<times> nat option \<times> heap, error option \<times> heap) step" where
  "clone_up head orig cl h =
     (if parent (h orig) = Some head then Inr (Break (None, h))
      else Inr (Continue (parent (h orig), parent (h cl), h)))"

definition clone_step ::
  "(nat \<Rightarrow> 'k option) \<Rightarrow> nat \<Rightarrow> nat \<Rightarrow> (nat \<Rightarrow> error + nat) \<Rightarrow> nat option \<times> nat option \<times> heap \<Rightarrow> error + (nat option \<times> nat option \<times> heap, error option \<times> heap) step" where
  "clone_step keys head rv cloner = (\<lambda>(node_orig, node_clone, h).
     bindE (deref node_orig) (\<lambda>orig. bindE (deref node_clone) (\<lambda>cl.
       case (if left (h cl) = None then left (h orig) else None) of
         Some ol \<Rightarrow> bindE (to_key keys ol) (\<lambda>_.
            case cloner ol of
              Inl e \<Rightarrow> Inr (Break (Some e, h))
            | Inr n \<Rightarrow>
                let h1 = set_parent n (Some cl) (set_left cl (Some n) (set_red_val n (is_red (h ol)) h))
                in Inr (Continue (Some ol, Some n,
                     if left (h1 ol) = left (h1 head) then set_left rv (Some n) h1 else h1)))
       | None \<Rightarrow>
          (case (if right (h cl) = None then right (h orig) else None) of
             Some orr \<Rightarrow> bindE (to_key keys orr) (\<lambda>_.
                case cloner orr of
                  Inl e \<Rightarrow> Inr (Break (Some e, h))
                | Inr n \<Rightarrow>
                    let h1 = set_parent n (Some cl) (set_right cl (Some n) (set_red_val n (is_red (h orr)) h))
                    in Inr (Continue (Some orr, Some n,
                         if right (h1 orr) = right (h1 head) then set_right rv (Some n) h1 else h1)))
           | None \<Rightarrow> clone_up head orig cl h))))"

definition rollback ::
  "(nat \<Rightarrow> 'k option) \<Rightarrow> nat \<Rightarrow> error \<Rightarrow> heap \<Rightarrow> (error + clone_result) option" where
  "rollback keys rv e h =
     bindR (iterate (dispose_step keys) (root rv h, h, [])) (\<lambda>(h1, ds).
       Some (Inr (RolledBack e (clear rv h1) ds)))"

definition clone ::
  "(nat \<Rightarrow> 'k option) \<Rightarrow> nat \<Rightarrow> nat \<Rightarrow> (nat \<Rightarrow> error + nat) \<Rightarrow> heap \<Rightarrow> (error + clone_result) option" where
  "clone keys head rv cloner h =
     (let h0 = new_tree rv h in
      case root head h0 of
        None \<Rightarrow> Some (Inr (Cloned h0))
      | Some orig \<Rightarrow>
         bindR (Some (to_key keys orig)) (\<lambda>_.
          case cloner orig of
            Inl e \<Rightarrow> rollback keys rv e h0
          | Inr cl \<Rightarrow>
              let h1 = set_red_val cl (is_red (h0 orig)) (set_parent cl (Some rv) h0);
                  h2 = set_right rv (Some cl) (set_left rv (Some cl) (set_parent rv (Some cl) h1))
              in bindR (iterate (clone_step keys head rv cloner) (Some orig, Some cl, h2)) (\<lambda>(exc, h3).
                   case exc of
                     None \<Rightarrow> Some (Inr (Cloned h3))
                   | Some e \<Rightarrow> rollback keys rv e h3)))"

section \<open>Swap\<close>

definition swap :: "nat \<Rightarrow> nat \<Rightarrow> heap \<Rightarrow> error + heap" where
  "swap head other h =
     (case (parent (h head), parent (h other)) of
        (Some r, Some ro) \<Rightarrow>
          if is_red (h head) \<noteq> is_red (h other) then Inl AssertFailed
          else
            let h1 = set_left other (left (h head)) (set_left head (left (h other)) h);
                h2 = set_right other (right (h1 head)) (set_right head (right (h1 other)) h1);
                par = parent (h2 head);
                h3 = set_parent other par (set_parent head (parent (h2 other)) h2)
            in bindE (deref (parent (h3 head))) (\<lambda>a.
                 let h4 = set_parent a (Some head) h3
                 in bindE (deref (parent (h4 other))) (\<lambda>b. Inr (set_parent b (Some other) h4)))
      | (Some r, None) \<Rightarrow>
          let h1 = set_parent other (parent (h head))
                     (set_right other (right (h head)) (set_left other (left (h head)) h))
          in bindE (deref (parent (h1 other))) (\<lambda>a.
               Inr (set_parent head None (set_right head (Some head) (set_left head (Some head)
                      (set_parent a (Some other) h1)))))
      | (None, Some ro) \<Rightarrow>
          let h1 = set_parent head (parent (h other))
                     (set_right head (right (h other)) (set_left head (left (h other)) h))
          in bindE (deref (parent (h1 head))) (\<lambda>a.
               Inr (set_parent other None (set_right other (Some other) (set_left other (Some other)
                      (set_parent a (Some head) h1)))))
      | (None, None) \<Rightarrow> Inr h)"

section \<open>Sequences of operations\<close>

datatype 'k op = Insert nat | Erase 'k

fun run :: "(nat \<Rightarrow> 'k::linorder option) \<Rightarrow> nat \<Rightarrow> 'k op list \<Rightarrow> heap \<Rightarrow> (error + heap) option" where
  "run keys head [] h = Some (Inr h)"
| "run keys head (Insert a # ops) h =
     bindR (insert_value keys head a h) (\<lambda>(r, h1). run keys head ops h1)"
| "run keys head (Erase k # ops) h =
     bindR (erase keys head k h) (\<lambda>(r, h1). run keys head ops h1)"

section \<open>The tree a store holds\<close>

text \<open>The shape of the linked nodes below a pointer, as a binary tree of addresses:
  \<open>tree_at h par p t\<close> holds when \<open>p\<close> points to the root of \<open>t\<close>, every node's
  children are those of \<open>t\<close> and every node's parent pointer is its parent in \<open>t\<close>
  (\<open>par\<close> for the root).\<close>

datatype tree = Leaf | Node tree nat tree

fun inorder :: "tree \<Rightarrow> nat list" where
  "inorder Leaf = []"
| "inorder (Node l a r) = inorder l @ a # inorder r"

fun preorder :: "tree \<Rightarrow> nat list" where
  "preorder Leaf = []"
| "preorder (Node l a r) = a # preorder l @ preorder r"

fun tree_at :: "heap \<Rightarrow> nat option \<Rightarrow> nat option \<Rightarrow> tree \<Rightarrow> bool" where
  "tree_at h par p Leaf = (p = None)"
| "tree_at h par p (Node l a r) =
     (p = Some a \<and> parent (h a) = par \<and>
      tree_at h (Some a) (left (h a)) l \<and> tree_at h (Some a) (right (h a)) r)"

definition linked :: "nat \<Rightarrow> heap \<Rightarrow> tree \<Rightarrow> bool" where
  "linked head h t =
     (tree_at h (Some head) (root head h) t \<and> distinct (inorder t) \<and> head \<notin> set (inorder t))"

text \<open>The number of black nodes on every path from the root of \<open>t\<close> to a missing
  child, \<open>None\<close> when two paths differ.\<close>

fun black_height :: "heap \<Rightarrow> tree \<Rightarrow> nat option" where
  "black_height h Leaf = Some 0"
| "black_height h (Node l a r) =
     (case (black_height h l, black_height h r) of
        (Some m, Some n) \<Rightarrow> if m = n then Some (if is_red (h a) then m else Suc m) else None
      | _ \<Rightarrow> None)"

fun red_rule :: "heap \<Rightarrow> tree \<Rightarrow> bool" where
  "red_rule h Leaf = True"
| "red_rule h (Node l a r) =
     ((if is_red (h a) then black_or_null h (left (h a)) \<and> black_or_null h (right (h a)) else True)
      \<and> red_rule h l \<and> red_rule h r)"

definition rb_invariants :: "nat \<Rightarrow> heap \<Rightarrow> bool" where
  "rb_invariants head h =
     (\<exists>t. linked head h t \<and> black_or_null h (root head h) \<and> red_rule h t \<and> black_height h t \<noteq> None)"

text \<open>Invariant 1 of the data model: every key in the left subtree of a node orders
  before the node's key, every key in its right subtree after it; every linked node is a
  record.\<close>

fun bst :: "(nat \<Rightarrow> 'k::linorder option) \<Rightarrow> tree \<Rightarrow> bool" where
  "bst keys Leaf = True"
| "bst keys (Node l a r) =
     (case keys a of
        None \<Rightarrow> False
      | Some k \<Rightarrow>
          list_all (\<lambda>b. case keys b of None \<Rightarrow> False | Some kb \<Rightarrow> kb < k) (inorder l) \<and>
          list_all (\<lambda>b. case keys b of None \<Rightarrow> False | Some kb \<Rightarrow> k < kb) (inorder r) \<and>
          bst keys l \<and> bst keys r)"

text \<open>\<open>shape_at\<close> is \<open>tree_at\<close> without the parent pointers: the walk that disposes
  a tree follows \<open>left\<close> and \<open>right\<close> only.\<close>

fun shape_at :: "heap \<Rightarrow> nat option \<Rightarrow> tree \<Rightarrow> bool" where
  "shape_at h p Leaf = (p = None)"
| "shape_at h p (Node l a r) =
     (p = Some a \<and> shape_at h (left (h a)) l \<and> shape_at h (right (h a)) r)"

text \<open>The measure that the walk of \<open>dispose_step\<close> decreases: relinking the left
  child above its parent makes the tree lighter.\<close>

fun weight :: "tree \<Rightarrow> nat" where
  "weight Leaf = 0"
| "weight (Node l a r) = 2 * weight l + 1 + weight r"

section \<open>What a cloner does on a sequence of records\<close>

text \<open>\<open>clone\<close> calls the cloner on the records in pre-order until a call raises:
  \<open>clones f xs\<close> are the records the calls returned before the first error and
  \<open>first_error f xs\<close> is that error.\<close>

fun clones :: "(nat \<Rightarrow> error + nat) \<Rightarrow> nat list \<Rightarrow> nat list" where
  "clones f [] = []"
| "clones f (b # bs) = (case f b of Inl e \<Rightarrow> [] | Inr n \<Rightarrow> n # clones f bs)"

fun first_error :: "(nat \<Rightarrow> error + nat) \<Rightarrow> nat list \<Rightarrow> error option" where
  "first_error f [] = None"
| "first_error f (b # bs) = (case f b of Inl e \<Rightarrow> Some e | Inr n \<Rightarrow> first_error f bs)"

text \<open>The loop continued from the result of one step.\<close>

definition resume :: "('s \<Rightarrow> error + ('s, 'r) step) \<Rightarrow> error + ('s, 'r) step \<Rightarrow> (error + 'r) option" where
  "resume body r =
     (case r of
        Inl e \<Rightarrow> Some (Inl e)
      | Inr st \<Rightarrow> (case st of Continue s' \<Rightarrow> iterate body s' | Break x \<Rightarrow> Some (Inr x)))"

text \<open>What the loop of \<open>clone\<close> needs at a node \<open>a\<close> of the original with subtree
  \<open>s\<close> whose clone \<open>cl\<close> has no children yet: the records the cloner returns for the
  nodes below \<open>a\<close> are new (not in \<open>s\<close>, not a sentinel, different from each other and
  from \<open>cl\<close>) and have no children.\<close>

definition clone_pre :: "(nat \<Rightarrow> error + nat) \<Rightarrow> nat \<Rightarrow> nat \<Rightarrow> heap \<Rightarrow> tree \<Rightarrow> nat \<Rightarrow> bool" where
  "clone_pre cloner head rv h s cl =
     (distinct (inorder s) \<and> head \<notin> set (inorder s) \<and> rv \<notin> set (inorder s) \<and>
      cl \<notin> set (inorder s) \<and> cl \<noteq> rv \<and> left (h cl) = None \<and> right (h cl) = None \<and>
      (\<forall>b\<in>set (tl (preorder s)). \<forall>n. cloner b = Inr n \<longrightarrow>
          n \<notin> set (inorder s) \<and> n \<noteq> rv \<and> n \<noteq> cl \<and> left (h n) = None \<and> right (h n) = None) \<and>
      (\<forall>b\<in>set (tl (preorder s)). \<forall>b'\<in>set (tl (preorder s)). \<forall>n.
          cloner b = Inr n \<longrightarrow> cloner b' = Inr n \<longrightarrow> b = b'))"

text \<open>What the loop has done when it leaves the subtree of \<open>a\<close>: only the clones
  \<open>cs\<close>, \<open>cl\<close> and the new sentinel changed, and below \<open>cl\<close> the clones form a
  tree.\<close>

definition clone_post :: "nat \<Rightarrow> heap \<Rightarrow> heap \<Rightarrow> nat \<Rightarrow> nat list \<Rightarrow> bool" where
  "clone_post rv h h' cl cs =
     ((\<forall>b. b \<notin> insert cl (insert rv (set cs)) \<longrightarrow> h' b = h b) \<and>
      parent (h' cl) = parent (h cl) \<and> parent (h' rv) = parent (h rv) \<and>
      is_red (h' rv) = is_red (h rv) \<and>
      (\<exists>s'. tree_at h' (parent (h cl)) (Some cl) s' \<and> set (inorder s') = insert cl (set cs) \<and>
            distinct (inorder s')))"

section \<open>A store to run the operations on\<close>

text \<open>Address \<open>0\<close> and the addresses from \<open>100\<close> on hold no record (they are for
  sentinels); every other address \<open>a\<close> holds a record with key \<open>a\<close>. In \<open>store0\<close>
  address \<open>0\<close> is the sentinel of a newly constructed tree and every record is
  unlinked.\<close>

definition int_keys :: "nat \<Rightarrow> int option" where
  "int_keys a = (if a = 0 \<or> 100 \<le> a then None else Some (int a))"

definition store0 :: heap where
  "store0 = new_tree 0 (\<lambda>_. \<lparr>left = None, right = None, is_red = False, parent = None\<rparr>)"

text \<open>A second payload for the same addresses: the key of the record at \<open>a\<close> is
  \<open>a mod 10\<close>, so that different records have equal keys.\<close>

definition dup_keys :: "nat \<Rightarrow> int option" where
  "dup_keys a = (if a = 0 \<or> 100 \<le> a then None else Some (int (a mod 10)))"

definition shifted :: "nat \<Rightarrow> error + nat" where
  "shifted a = Inr (a + 40)"

text \<open>A cloner that raises on the record 2.\<close>

definition failing :: "nat \<Rightarrow> error + nat" where
  "failing a = (if a = 2 then Inl (Thrown 7) else Inr (a + 40))"

section \<open>Evaluation\<close>

lemmas eval_defs = bindE_def bindR_def deref_def assert_ptr_def set_red_def set_black_def
  set_red_val_def set_parent_def set_left_def set_right_def is_black_def reset_def reset_node_def
  new_tree_def to_key_def root_def set_root_def end_it_def begin_it_def is_empty_def
  replace_child_def rotate_left_def rotate_right_def transplant_def find_step_def find_node_def
  contains_def find_minimum_step_def find_minimum_def find_maximum_step_def find_maximum_def
  black_case_left_def black_case_right_def insert_fixup_step_def insert_fixup_def
  insert_parent_def descend_step_def insert_value_def insert_for_key_def black_or_null_def
  sibling_left_def nephew_left_def finish_left_def sibling_right_def nephew_right_def
  finish_right_def erase_fixup_left_def erase_fixup_right_def erase_fixup_step_def erase_fixup_def
  erase_caches_def splice_successor_def take_place_def erase_unlink_def erase_node_def
  erase_def clear_def dispose_step_def clear_and_dispose_helper_def clear_and_dispose_def
  climb_right_step_def climb_left_step_def next_it_def prev_it_def in_order_def clone_up_def
  clone_step_def rollback_def clone_def swap_def int_keys_def dup_keys_def store0_def shifted_def Let_def

lemma tree_at_unique: "tree_at h par p t1 \<Longrightarrow> tree_at h par' p t2 \<Longrightarrow> t1 = t2"
proof (induction t1 arbitrary: t2 par par' p)
  case Leaf
  then show ?case by (cases t2) auto
next
  case (Node l a r)
  then show ?case by (cases t2) auto
qed

section \<open>Loops\<close>

lemma iterate_Continue: "body s = Inr (Continue s') \<Longrightarrow> iterate body s = iterate body s'"
  by (subst iterate.simps) simp

lemma iterate_Break: "body s = Inr (Break r) \<Longrightarrow> iterate body s = Some (Inr r)"
  by (subst iterate.simps) simp

lemma iterate_error: "body s = Inl e \<Longrightarrow> iterate body s = Some (Inl e)"
  by (subst iterate.simps) simp

section \<open>Runs on the store\<close>

lemma run_2345_5:
  "\<exists>h. run int_keys 0 [Insert 2, Insert 3, Insert 4, Insert 5, Erase 5] store0 = Some (Inr h)
     \<and> h 0 = \<lparr>left = Some 2, right = Some 4, is_red = False, parent = Some 3\<rparr>
     \<and> h 2 = \<lparr>left = None, right = None, is_red = False, parent = Some 3\<rparr>
     \<and> h 3 = \<lparr>left = Some 2, right = Some 4, is_red = False, parent = Some 0\<rparr>
     \<and> h 4 = \<lparr>left = None, right = None, is_red = False, parent = Some 3\<rparr>"
  by (simp add: eval_defs iterate.simps)

lemma run_to_chain:
  "\<exists>h. run int_keys 0 [Insert 11, Insert 12, Insert 13, Insert 14, Insert 15, Insert 16, Insert 17,
            Insert 18, Insert 19, Insert 20, Erase 20, Erase 17, Erase 18, Erase 11, Erase 13,
            Erase 12, Erase 15] store0 = Some (Inr h)
     \<and> h 0 = \<lparr>left = Some 14, right = Some 19, is_red = False, parent = Some 14\<rparr>
     \<and> h 14 = \<lparr>left = None, right = Some 16, is_red = False, parent = Some 0\<rparr>
     \<and> h 16 = \<lparr>left = None, right = Some 19, is_red = False, parent = Some 14\<rparr>
     \<and> h 19 = \<lparr>left = None, right = None, is_red = False, parent = Some 16\<rparr>"
  by (simp add: eval_defs iterate.simps)

lemma run_32:
  "\<exists>h. run int_keys 0 [Insert 3, Insert 2] store0 = Some (Inr h)
     \<and> h 0 = \<lparr>left = Some 2, right = Some 3, is_red = False, parent = Some 3\<rparr>
     \<and> h 2 = \<lparr>left = None, right = None, is_red = True, parent = Some 3\<rparr>
     \<and> h 3 = \<lparr>left = Some 2, right = None, is_red = False, parent = Some 0\<rparr>"
  by (simp add: eval_defs iterate.simps)

lemma run_32_fresh:
  "\<exists>h. run int_keys 0 [Insert 3, Insert 2] store0 = Some (Inr h)
     \<and> h 0 = \<lparr>left = Some 2, right = Some 3, is_red = False, parent = Some 3\<rparr>
     \<and> h 2 = \<lparr>left = None, right = None, is_red = True, parent = Some 3\<rparr>
     \<and> h 3 = \<lparr>left = Some 2, right = None, is_red = False, parent = Some 0\<rparr>
     \<and> h 42 = \<lparr>left = None, right = None, is_red = False, parent = None\<rparr>
     \<and> h 43 = \<lparr>left = None, right = None, is_red = False, parent = None\<rparr>"
  by (simp add: eval_defs iterate.simps)

section \<open>Red-black invariants after erase\<close>

text \<open>C1. After \<open>insert\<close> of the keys 2, 3, 4, 5 and \<open>erase\<close> of 5 the tree is the
  black root 3 with the black leaves 2 and 4 and satisfies the red-black invariants.
  \<open>erase\<close> of the key 2 then removes a black leaf: \<open>x\<close> is null, so \<open>erase_node\<close>
  skips \<open>erase_fixup\<close>, and the tree that results (black 3 with the single black child
  4) has paths with different counts of black nodes.\<close>

theorem erase_black_leaf_breaks_black_height:
  "\<exists>h h'. run int_keys 0 [Insert 2, Insert 3, Insert 4, Insert 5, Erase 5] store0 = Some (Inr h)
     \<and> rb_invariants 0 h
     \<and> erase int_keys 0 2 h = Some (Inr (Some 2, h'))
     \<and> \<not> rb_invariants 0 h'"
proof -
  obtain h where run: "run int_keys 0 [Insert 2, Insert 3, Insert 4, Insert 5, Erase 5] store0 = Some (Inr h)"
    and h: "h 0 = \<lparr>left = Some 2, right = Some 4, is_red = False, parent = Some 3\<rparr>"
      "h 2 = \<lparr>left = None, right = None, is_red = False, parent = Some 3\<rparr>"
      "h 3 = \<lparr>left = Some 2, right = Some 4, is_red = False, parent = Some 0\<rparr>"
      "h 4 = \<lparr>left = None, right = None, is_red = False, parent = Some 3\<rparr>"
    using run_2345_5 by blast
  have inv: "rb_invariants 0 h"
    unfolding rb_invariants_def linked_def
    by (rule exI[of _ "Node (Node Leaf 2 Leaf) 3 (Node Leaf 4 Leaf)"])
       (simp add: h root_def black_or_null_def is_black_def)
  obtain h' where er: "erase int_keys 0 2 h = Some (Inr (Some 2, h'))"
    and h': "h' 0 = \<lparr>left = Some 3, right = Some 4, is_red = False, parent = Some 3\<rparr>"
      "h' 3 = \<lparr>left = None, right = Some 4, is_red = False, parent = Some 0\<rparr>"
      "h' 4 = \<lparr>left = None, right = None, is_red = False, parent = Some 3\<rparr>"
    by (simp add: eval_defs iterate.simps h)
  have t: "tree_at h' (Some 0) (root 0 h') (Node Leaf 3 (Node Leaf 4 Leaf))"
    by (simp add: h' root_def)
  have "\<not> rb_invariants 0 h'"
  proof
    assume "rb_invariants 0 h'"
    then obtain t' where t': "tree_at h' (Some 0) (root 0 h') t'" and bh: "black_height h' t' \<noteq> None"
      unfolding rb_invariants_def linked_def by blast
    from tree_at_unique[OF t' t] have "t' = Node Leaf 3 (Node Leaf 4 Leaf)" .
    with bh show False by (simp add: h')
  qed
  with run inv er show ?thesis by blast
qed

section \<open>A sequence of inserts and erases that stops in \<open>erase_fixup\<close>\<close>


text \<open>C9. In the tree that holds the keys 14, 16 and 19 after the operations above,
  the key 16 is present (\<open>contains\<close> returns true), and \<open>erase\<close> of 16 returns no
  reference to the removed record: it stops at the failed \<open>assert(w)\<close> of
  \<open>erase_fixup\<close>.\<close>

theorem erase_present_key_aborts:
  "\<exists>h. run int_keys 0 [Insert 11, Insert 12, Insert 13, Insert 14, Insert 15, Insert 16, Insert 17,
            Insert 18, Insert 19, Insert 20, Erase 20, Erase 17, Erase 18, Erase 11, Erase 13,
            Erase 12, Erase 15] store0 = Some (Inr h)
     \<and> linked 0 h (Node Leaf 14 (Node Leaf 16 (Node Leaf 19 Leaf)))
     \<and> contains int_keys 0 h 16 = Some (Inr True)
     \<and> erase int_keys 0 16 h = Some (Inl AssertFailed)"
proof -
  from run_to_chain obtain h where
    "run int_keys 0 [Insert 11, Insert 12, Insert 13, Insert 14, Insert 15, Insert 16, Insert 17,
            Insert 18, Insert 19, Insert 20, Erase 20, Erase 17, Erase 18, Erase 11, Erase 13,
            Erase 12, Erase 15] store0 = Some (Inr h)"
    and h: "h 0 = \<lparr>left = Some 14, right = Some 19, is_red = False, parent = Some 14\<rparr>"
     "h 14 = \<lparr>left = None, right = Some 16, is_red = False, parent = Some 0\<rparr>"
     "h 16 = \<lparr>left = None, right = Some 19, is_red = False, parent = Some 14\<rparr>"
     "h 19 = \<lparr>left = None, right = None, is_red = False, parent = Some 16\<rparr>"
    by blast
  moreover have "linked 0 h (Node Leaf 14 (Node Leaf 16 (Node Leaf 19 Leaf)))"
    by (simp add: linked_def root_def h)
  moreover have "contains int_keys 0 h 16 = Some (Inr True)"
    by (simp add: eval_defs iterate.simps h)
  moreover have "erase int_keys 0 16 h = Some (Inl AssertFailed)"
    by (simp add: eval_defs iterate.simps h)
  ultimately show ?thesis by blast
qed

section \<open>Clearing\<close>

text \<open>C3. After \<open>clear()\<close> on any tree, \<open>empty()\<close> returns false, the sentinel's
  parent is the sentinel itself and not null, and \<open>begin()\<close> is the null pointer, which
  differs from \<open>end()\<close>.\<close>

theorem clear_leaves_tree_not_empty:
  "\<not> is_empty head (clear head h) \<and> root head (clear head h) = Some head
   \<and> begin_it head (clear head h) = None \<and> begin_it head (clear head h) \<noteq> end_it head"
  by (simp add: eval_defs)

text \<open>C4. \<open>clear_and_dispose\<close> on the tree holding the keys 2 and 3 disposes both
  records and leaves the tree empty, with the sentinel's \<open>left\<close> and \<open>right\<close> null
  instead of the sentinel itself, so that \<open>begin()\<close> differs from \<open>end()\<close>.\<close>

theorem clear_and_dispose_nulls_caches:
  "\<exists>h h'. run int_keys 0 [Insert 3, Insert 2] store0 = Some (Inr h)
     \<and> clear_and_dispose int_keys 0 h = Some (Inr (h', [2, 3]))
     \<and> is_empty 0 h' \<and> left (h' 0) = None \<and> right (h' 0) = None
     \<and> begin_it 0 h' \<noteq> end_it 0"
proof -
  from run_32 obtain h where "run int_keys 0 [Insert 3, Insert 2] store0 = Some (Inr h)"
    and h: "h 0 = \<lparr>left = Some 2, right = Some 3, is_red = False, parent = Some 3\<rparr>"
     "h 2 = \<lparr>left = None, right = None, is_red = True, parent = Some 3\<rparr>"
     "h 3 = \<lparr>left = Some 2, right = None, is_red = False, parent = Some 0\<rparr>"
    by blast
  moreover have "\<exists>h'. clear_and_dispose int_keys 0 h = Some (Inr (h', [2, 3]))
     \<and> is_empty 0 h' \<and> left (h' 0) = None \<and> right (h' 0) = None \<and> begin_it 0 h' \<noteq> end_it 0"
    by (simp add: eval_defs iterate.simps h)
  ultimately show ?thesis by blast
qed

section \<open>Iterators\<close>

text \<open>C5. In the tree built by inserting 3 and then 2 the maximum is the record 3
  (the traversal yields 2, 3 and the sentinel's \<open>right\<close> is 3). Incrementing the
  iterator at 3 yields \<open>end()\<close>, but decrementing \<open>end()\<close> yields the record 2, the
  minimum.\<close>

theorem decrement_end_misses_maximum:
  "\<exists>h. run int_keys 0 [Insert 3, Insert 2] store0 = Some (Inr h)
     \<and> in_order 0 h = Some (Inr [2, 3]) \<and> right (h 0) = Some 3
     \<and> prev_it h (end_it 0) = Some (Inr (Some 2))
     \<and> next_it h (Some 3) = Some (Inr (end_it 0))"
proof -
  from run_32 obtain h where "run int_keys 0 [Insert 3, Insert 2] store0 = Some (Inr h)"
    and h: "h 0 = \<lparr>left = Some 2, right = Some 3, is_red = False, parent = Some 3\<rparr>"
     "h 2 = \<lparr>left = None, right = None, is_red = True, parent = Some 3\<rparr>"
     "h 3 = \<lparr>left = Some 2, right = None, is_red = False, parent = Some 0\<rparr>"
    by blast
  moreover have "in_order 0 h = Some (Inr [2, 3])"
    by (simp add: eval_defs iterate.simps walk.simps h)
  moreover have "prev_it h (end_it 0) = Some (Inr (Some 2))"
    by (simp add: eval_defs iterate.simps h)
  moreover have "next_it h (Some 3) = Some (Inr (end_it 0))"
    by (simp add: eval_defs iterate.simps h)
  ultimately show ?thesis by (simp add: h)
qed

section \<open>Clone\<close>

text \<open>C6. Cloning the tree built by inserting 3 and then 2, with a cloner that maps
  the record at \<open>a\<close> to a new record at \<open>a + 40\<close>, succeeds and copies the shape: the
  clone 43 of the root has the clone 42 of the minimum as its left child. The minimum of
  the original is 2, whose clone is 42, but the new tree's \<open>begin()\<close> is 43, the clone of
  the root.\<close>

theorem clone_min_cache_wrong:
  "\<exists>h h'. run int_keys 0 [Insert 3, Insert 2] store0 = Some (Inr h)
     \<and> begin_it 0 h = Some 2 \<and> shifted 2 = Inr 42 \<and> shifted 3 = Inr 43
     \<and> clone int_keys 0 100 shifted h = Some (Inr (Cloned h'))
     \<and> linked 100 h' (Node (Node Leaf 42 Leaf) 43 Leaf)
     \<and> begin_it 100 h' = Some 43"
proof -
  from run_32_fresh obtain h where "run int_keys 0 [Insert 3, Insert 2] store0 = Some (Inr h)"
    and h: "h 0 = \<lparr>left = Some 2, right = Some 3, is_red = False, parent = Some 3\<rparr>"
     "h 2 = \<lparr>left = None, right = None, is_red = True, parent = Some 3\<rparr>"
     "h 3 = \<lparr>left = Some 2, right = None, is_red = False, parent = Some 0\<rparr>"
     "h 42 = \<lparr>left = None, right = None, is_red = False, parent = None\<rparr>"
     "h 43 = \<lparr>left = None, right = None, is_red = False, parent = None\<rparr>"
    by blast
  moreover have "\<exists>h'. clone int_keys 0 100 shifted h = Some (Inr (Cloned h'))
     \<and> linked 100 h' (Node (Node Leaf 42 Leaf) 43 Leaf) \<and> begin_it 100 h' = Some 43"
    by (simp add: eval_defs iterate.simps linked_def h)
  ultimately show ?thesis by (auto simp add: h shifted_def begin_it_def)
qed

section \<open>Insertion of a key that is present\<close>

lemma descend_finds:
  assumes "tree_at h par p t" "bst keys t" "a \<in> set (inorder t)" "keys a = Some k"
  shows "iterate (descend_step keys h (Inr k)) (y, p) = Some (Inr (Found a))"
  using assms
proof (induction t arbitrary: par p y)
  case Leaf
  then show ?case by simp
next
  case (Node l b r)
  from Node.prems(2) obtain kb where kb: "keys b = Some kb"
    by (auto split: option.splits)
  from Node.prems(1) have p: "p = Some b" and tl: "tree_at h (Some b) (left (h b)) l"
    and tr: "tree_at h (Some b) (right (h b)) r" by auto
  from Node.prems(2) kb have
    ll: "list_all (\<lambda>c. case keys c of None \<Rightarrow> False | Some kc \<Rightarrow> kc < kb) (inorder l)" and
    lr: "list_all (\<lambda>c. case keys c of None \<Rightarrow> False | Some kc \<Rightarrow> kb < kc) (inorder r)" and
    bl: "bst keys l" and br: "bst keys r" by auto
  have inl: "a \<in> set (inorder l) \<Longrightarrow> k < kb"
    using ll Node.prems(4) by (auto simp: list_all_iff)
  have inr: "a \<in> set (inorder r) \<Longrightarrow> kb < k"
    using lr Node.prems(4) by (auto simp: list_all_iff)
  consider (L) "a \<in> set (inorder l)" | (M) "a = b" | (R) "a \<in> set (inorder r)"
    using Node.prems(3) by auto
  then show ?case
  proof cases
    case L
    then have "k < kb" by (rule inl)
    then have "descend_step keys h (Inr k) (y, p) = Inr (Continue (Some b, left (h b)))"
      by (simp add: descend_step_def p bindE_def to_key_def kb)
    then show ?thesis
      using Node.IH(1)[OF tl bl L Node.prems(4)] by (simp add: iterate_Continue)
  next
    case M
    then have "kb = k" using kb Node.prems(4) by simp
    then have "descend_step keys h (Inr k) (y, p) = Inr (Break (Found a))"
      by (simp add: descend_step_def p bindE_def to_key_def kb M)
    then show ?thesis by (rule iterate_Break)
  next
    case R
    then have "kb < k" by (rule inr)
    then have "\<not> k < kb" by simp
    with \<open>kb < k\<close> have "descend_step keys h (Inr k) (y, p) = Inr (Continue (Some b, right (h b)))"
      by (simp add: descend_step_def p bindE_def to_key_def kb)
    then show ?thesis
      using Node.IH(2)[OF tr br R Node.prems(4)] by (simp add: iterate_Continue)
  qed
qed

text \<open>C8. In a tree whose linked records are ordered by their keys, inserting a
  record \<open>v\<close> whose key equals the key of a linked record \<open>a\<close> returns the position
  of \<open>a\<close> with \<open>false\<close> and the store is unchanged; \<open>insert_for_key\<close> with that key
  returns the same and the caller's state \<open>w\<close>, which only the factory \<open>fn\<close> changes, is
  unchanged whatever \<open>fn\<close> is: the factory is not called.\<close>

theorem insert_duplicate_key:
  assumes "linked head h t" and "bst keys t"
    and "a \<in> set (inorder t)" and "keys a = Some k" and "keys v = Some k"
  shows "insert_value keys head v h = Some (Inr ((Some a, False), h))
       \<and> insert_for_key keys head k fn (h, w) = Some (Inr ((Some a, False), h, w))"
proof -
  from assms(1) have t: "tree_at h (Some head) (root head h) t" by (simp add: linked_def)
  have "iterate (descend_step keys h (Inr k)) (None, root head h) = Some (Inr (Found a))"
    by (rule descend_finds[OF t assms(2) assms(3) assms(4)])
  then show ?thesis
    by (simp add: insert_value_def insert_for_key_def to_key_def assms(5) bindR_def)
qed

lemma dup_run:
  "\<exists>h. run dup_keys 0 [Insert 3, Insert 2] store0 = Some (Inr h)
     \<and> h 0 = \<lparr>left = Some 2, right = Some 3, is_red = False, parent = Some 3\<rparr>
     \<and> h 2 = \<lparr>left = None, right = None, is_red = True, parent = Some 3\<rparr>
     \<and> h 3 = \<lparr>left = Some 2, right = None, is_red = False, parent = Some 0\<rparr>"
  by (simp add: eval_defs iterate.simps dup_keys_def)

theorem insert_duplicate_key_witness:
  "\<exists>h. run dup_keys 0 [Insert 3, Insert 2] store0 = Some (Inr h)
     \<and> linked 0 h (Node (Node Leaf 2 Leaf) 3 Leaf) \<and> bst dup_keys (Node (Node Leaf 2 Leaf) 3 Leaf)
     \<and> dup_keys 2 = Some 2 \<and> dup_keys 12 = Some 2
     \<and> insert_value dup_keys 0 12 h = Some (Inr ((Some 2, False), h))
     \<and> insert_for_key dup_keys 0 2 (\<lambda>n. (12, Suc n)) (h, 0::nat) = Some (Inr ((Some 2, False), h, 0))"
proof -
  from dup_run obtain h where r: "run dup_keys 0 [Insert 3, Insert 2] store0 = Some (Inr h)"
    and h: "h 0 = \<lparr>left = Some 2, right = Some 3, is_red = False, parent = Some 3\<rparr>"
     "h 2 = \<lparr>left = None, right = None, is_red = True, parent = Some 3\<rparr>"
     "h 3 = \<lparr>left = Some 2, right = None, is_red = False, parent = Some 0\<rparr>"
    by blast
  have l: "linked 0 h (Node (Node Leaf 2 Leaf) 3 Leaf)"
    by (simp add: linked_def root_def h)
  have b: "bst dup_keys (Node (Node Leaf 2 Leaf) 3 Leaf)"
    by (simp add: dup_keys_def)
  have m: "2 \<in> set (inorder (Node (Node Leaf 2 Leaf) 3 Leaf))" by simp
  have k2: "dup_keys 2 = Some 2" and k12: "dup_keys 12 = Some 2" by (simp_all add: dup_keys_def)
  from insert_duplicate_key[OF l b m k2 k12, of "\<lambda>n. (12, Suc n)" "0::nat"] r l b k2 k12
  show ?thesis by blast
qed

section \<open>The walk that disposes a tree\<close>

lemma tree_at_shape: "tree_at h par p t \<Longrightarrow> shape_at h p t"
  by (induction t arbitrary: par p) auto

lemma shape_at_cong:
  "(\<And>b. b \<in> set (inorder t) \<Longrightarrow> h' b = h b) \<Longrightarrow> shape_at h' p t = shape_at h p t"
  by (induction t arbitrary: p) auto

lemma tree_at_cong:
  "(\<And>b. b \<in> set (inorder t) \<Longrightarrow> h' b = h b) \<Longrightarrow> tree_at h' par p t = tree_at h par p t"
  by (induction t arbitrary: p par) auto

lemma shape_at_frame:
  "shape_at h p t \<Longrightarrow> (\<forall>c. c \<notin> M \<longrightarrow> h' c = h c) \<Longrightarrow> M \<inter> set (inorder t) = {} \<Longrightarrow> shape_at h' p t"
  by (subst shape_at_cong[of t h' h]) auto

lemma tree_at_frame:
  "tree_at h par p t \<Longrightarrow> (\<forall>c. c \<notin> M \<longrightarrow> h' c = h c) \<Longrightarrow> M \<inter> set (inorder t) = {} \<Longrightarrow> tree_at h' par p t"
  by (subst tree_at_cong[of t h' h]) auto

lemma dispose_walk:
  assumes "shape_at h p t" "distinct (inorder t)" "\<And>a. a \<in> set (inorder t) \<Longrightarrow> keys a \<noteq> None"
  shows "\<exists>h'. iterate (dispose_step keys) (p, h, ds) = Some (Inr (h', ds @ inorder t))
           \<and> (\<forall>b. b \<notin> set (inorder t) \<longrightarrow> h' b = h b)"
  using assms
proof (induction "weight t" arbitrary: t p h ds rule: less_induct)
  case less
  show ?case
  proof (cases t)
    case Leaf
    with less.prems(1) have "dispose_step keys (p, h, ds) = Inr (Break (h, ds))"
      by (simp add: dispose_step_def)
    then show ?thesis using Leaf by (simp add: iterate_Break)
  next
    case (Node l a r)
    note t = Node
    from less.prems(1) t have p: "p = Some a" and sl: "shape_at h (left (h a)) l"
      and sr: "shape_at h (right (h a)) r" by auto
    show ?thesis
    proof (cases l)
      case Leaf
      from less.prems(3)[of a] t obtain k where k: "keys a = Some k" by auto
      from sl Leaf have "left (h a) = None" by simp
      then have step: "dispose_step keys (p, h, ds) = Inr (Continue (right (h a), h, ds @ [a]))"
        by (simp add: dispose_step_def p bindE_def to_key_def k)
      have "weight r < weight t" using t by simp
      moreover have "distinct (inorder r)" using less.prems(2) t by simp
      moreover have "\<And>b. b \<in> set (inorder r) \<Longrightarrow> keys b \<noteq> None" using less.prems(3) t by simp
      ultimately obtain h' where
        "iterate (dispose_step keys) (right (h a), h, ds @ [a]) = Some (Inr (h', (ds @ [a]) @ inorder r))"
        "\<forall>b. b \<notin> set (inorder r) \<longrightarrow> h' b = h b"
        using less.hyps[of r h "right (h a)" "ds @ [a]"] sr by blast
      then show ?thesis using step t Leaf by (auto simp: iterate_Continue)
    next
      case (Node ll b lr)
      note l = Node
      from sl l have lb: "left (h a) = Some b" and sll: "shape_at h (left (h b)) ll"
        and slr: "shape_at h (right (h b)) lr" by auto
      define h1 where "h1 = set_right b (Some a) (set_left a (right (h b)) h)"
      have step: "dispose_step keys (p, h, ds) = Inr (Continue (Some b, h1, ds))"
        by (simp add: dispose_step_def p lb h1_def)
      from less.prems(2) t l have ab: "a \<noteq> b" and
        d: "a \<notin> set (inorder ll)" "a \<notin> set (inorder lr)" "a \<notin> set (inorder r)"
           "b \<notin> set (inorder ll)" "b \<notin> set (inorder lr)" "b \<notin> set (inorder r)" by auto
      have fr: "\<forall>c. c \<notin> {a, b} \<longrightarrow> h1 c = h c"
        by (simp add: h1_def set_right_def set_left_def)
      have h1a: "left (h1 a) = right (h b)" "right (h1 a) = right (h a)"
        using ab by (simp_all add: h1_def set_right_def set_left_def)
      have h1b: "left (h1 b) = left (h b)" "right (h1 b) = Some a"
        using ab by (simp_all add: h1_def set_right_def set_left_def)
      let ?t1 = "Node ll b (Node lr a r)"
      have "shape_at h1 (left (h b)) ll" using shape_at_frame[OF sll fr] d by simp
      moreover have "shape_at h1 (right (h b)) lr" using shape_at_frame[OF slr fr] d by simp
      moreover have "shape_at h1 (right (h a)) r" using shape_at_frame[OF sr fr] d by simp
      ultimately have s1: "shape_at h1 (Some b) ?t1" by (simp add: h1a h1b)
      have io: "inorder ?t1 = inorder t" using t l by simp
      have "weight ?t1 < weight t" using t l by simp
      moreover have "distinct (inorder ?t1)" using less.prems(2) io by simp
      moreover have "\<And>c. c \<in> set (inorder ?t1) \<Longrightarrow> keys c \<noteq> None"
        using less.prems(3) unfolding io by blast
      ultimately obtain h' where
        "iterate (dispose_step keys) (Some b, h1, ds) = Some (Inr (h', ds @ inorder ?t1))"
        "\<forall>c. c \<notin> set (inorder ?t1) \<longrightarrow> h' c = h1 c"
        using less.hyps[of ?t1 h1 "Some b" ds] s1 by blast
      then show ?thesis using step io fr t l by (auto simp: iterate_Continue)
    qed
  qed
qed

section \<open>The loop of clone\<close>

lemma iterate_resume: "iterate body s = resume body (body s)"
  by (subst iterate.simps) (simp add: resume_def)

lemma set_preorder: "set (preorder t) = set (inorder t)"
  by (induction t) auto

lemma clones_append:
  "clones f (xs @ ys) = (case first_error f xs of None \<Rightarrow> clones f xs @ clones f ys | Some e \<Rightarrow> clones f xs)"
  by (induction xs) (auto split: sum.splits option.splits)

lemma first_error_append:
  "first_error f (xs @ ys) = (case first_error f xs of None \<Rightarrow> first_error f ys | Some e \<Rightarrow> Some e)"
  by (induction xs) (auto split: sum.splits option.splits)

lemma clones_subset: "n \<in> set (clones f xs) \<Longrightarrow> \<exists>b\<in>set xs. f b = Inr n"
  by (induction xs) (auto split: sum.splits)

text \<open>One step of the loop of clone at a node whose left child has no clone yet.\<close>

lemma clone_step_left:
  assumes "left (h cl) = None" "left (h a) = Some c" "keys c \<noteq> None"
  shows "clone_step keys head rv cloner (Some a, Some cl, h) =
     (case cloner c of
        Inl e \<Rightarrow> Inr (Break (Some e, h))
      | Inr n \<Rightarrow>
          let h1 = set_parent n (Some cl) (set_left cl (Some n) (set_red_val n (is_red (h c)) h))
          in Inr (Continue (Some c, Some n,
               if left (h1 c) = left (h1 head) then set_left rv (Some n) h1 else h1)))"
  using assms by (auto simp: clone_step_def bindE_def deref_def to_key_def split: sum.splits)

lemma clone_step_right:
  assumes "left (h cl) \<noteq> None \<or> left (h a) = None" "right (h cl) = None" "right (h a) = Some c"
    "keys c \<noteq> None"
  shows "clone_step keys head rv cloner (Some a, Some cl, h) =
     (case cloner c of
        Inl e \<Rightarrow> Inr (Break (Some e, h))
      | Inr n \<Rightarrow>
          let h1 = set_parent n (Some cl) (set_right cl (Some n) (set_red_val n (is_red (h c)) h))
          in Inr (Continue (Some c, Some n,
               if right (h1 c) = right (h1 head) then set_right rv (Some n) h1 else h1)))"
  using assms by (auto simp: clone_step_def bindE_def deref_def to_key_def split: sum.splits)

lemma clone_step_up:
  assumes "left (h cl) \<noteq> None \<or> left (h a) = None" "right (h cl) \<noteq> None \<or> right (h a) = None"
  shows "clone_step keys head rv cloner (Some a, Some cl, h) = clone_up head a cl h"
  using assms by (auto simp: clone_step_def bindE_def deref_def)

text \<open>The store after the clone \<open>n\<close> of a left child has been linked below \<open>cl\<close>.\<close>

lemma link_left_heap:
  fixes h :: heap and v b :: bool
  assumes "n \<noteq> cl" "n \<noteq> rv" "cl \<noteq> rv"
  defines "h1 \<equiv> set_parent n (Some cl) (set_left cl (Some n) (set_red_val n v h))"
  defines "h2 \<equiv> (if b then set_left rv (Some n) h1 else h1)"
  shows "\<forall>c. c \<notin> {n, cl, rv} \<longrightarrow> h2 c = h c"
    and "left (h2 n) = left (h n)" and "right (h2 n) = right (h n)" and "parent (h2 n) = Some cl"
    and "left (h2 cl) = Some n" and "right (h2 cl) = right (h cl)" and "parent (h2 cl) = parent (h cl)"
    and "parent (h2 rv) = parent (h rv)" and "is_red (h2 rv) = is_red (h rv)"
  using assms(1-3) unfolding h1_def h2_def
  by (simp_all add: set_parent_def set_left_def set_red_val_def set_red_def set_black_def)

lemma link_right_heap:
  fixes h :: heap and v b :: bool
  assumes "n \<noteq> cl" "n \<noteq> rv" "cl \<noteq> rv"
  defines "h1 \<equiv> set_parent n (Some cl) (set_right cl (Some n) (set_red_val n v h))"
  defines "h2 \<equiv> (if b then set_right rv (Some n) h1 else h1)"
  shows "\<forall>c. c \<notin> {n, cl, rv} \<longrightarrow> h2 c = h c"
    and "left (h2 n) = left (h n)" and "right (h2 n) = right (h n)" and "parent (h2 n) = Some cl"
    and "right (h2 cl) = Some n" and "left (h2 cl) = left (h cl)" and "parent (h2 cl) = parent (h cl)"
    and "parent (h2 rv) = parent (h rv)" and "is_red (h2 rv) = is_red (h rv)"
  using assms(1-3) unfolding h1_def h2_def
  by (simp_all add: set_parent_def set_right_def set_red_val_def set_red_def set_black_def)


text \<open>Cloning below one child \<open>c\<close> of \<open>a\<close>, given that the loop is right on the
  subtree \<open>sc\<close> of \<open>c\<close> (\<open>IH\<close>) and that its step at \<open>a\<close> links the clone of \<open>c\<close>
  (\<open>link n\<close> is the store after that step).\<close>

lemma clone_child:
  fixes link :: "nat \<Rightarrow> heap"
  assumes IH: "\<And>h a cl pa. tree_at h pa (Some a) sc \<Longrightarrow> clone_pre cloner head rv h sc cl \<Longrightarrow>
        \<forall>b\<in>set (inorder sc). keys b \<noteq> None \<Longrightarrow>
        \<exists>h'. iterate (clone_step keys head rv cloner) (Some a, Some cl, h) =
            (case first_error cloner (tl (preorder sc)) of
               None \<Rightarrow> resume (clone_step keys head rv cloner) (clone_up head a cl h')
             | Some e \<Rightarrow> Some (Inr (Some e, h')))
          \<and> clone_post rv h h' cl (clones cloner (tl (preorder sc)))"
    and tree: "tree_at h (Some a) (Some c) sc"
    and stepE: "\<And>e. cloner c = Inl e \<Longrightarrow>
        clone_step keys head rv cloner (Some a, Some cl, h) = Inr (Break (Some e, h))"
    and step: "\<And>n. cloner c = Inr n \<Longrightarrow>
        clone_step keys head rv cloner (Some a, Some cl, h) = Inr (Continue (Some c, Some n, link n))"
    and link: "\<And>n. cloner c = Inr n \<Longrightarrow>
        (\<forall>x. x \<notin> {n, cl, rv} \<longrightarrow> link n x = h x) \<and> left (link n n) = left (h n) \<and>
        right (link n n) = right (h n) \<and> parent (link n n) = Some cl \<and>
        parent (link n rv) = parent (h rv) \<and> is_red (link n rv) = is_red (h rv)"
    and ah: "a \<noteq> head" and d: "distinct (inorder sc)"
    and notin: "head \<notin> set (inorder sc)" "rv \<notin> set (inorder sc)" "cl \<notin> set (inorder sc)" "cl \<noteq> rv"
    and fr: "\<forall>b\<in>set (preorder sc). \<forall>n. cloner b = Inr n \<longrightarrow>
          n \<notin> set (inorder sc) \<and> n \<noteq> rv \<and> n \<noteq> cl \<and> left (h n) = None \<and> right (h n) = None"
    and inj: "\<forall>b\<in>set (preorder sc). \<forall>b'\<in>set (preorder sc). \<forall>n.
          cloner b = Inr n \<longrightarrow> cloner b' = Inr n \<longrightarrow> b = b'"
    and recs: "\<forall>b\<in>set (inorder sc). keys b \<noteq> None"
  shows "\<exists>h2 sl. iterate (clone_step keys head rv cloner) (Some a, Some cl, h) =
            (case first_error cloner (preorder sc) of
               None \<Rightarrow> iterate (clone_step keys head rv cloner) (Some a, Some cl, h2)
             | Some e \<Rightarrow> Some (Inr (Some e, h2)))
          \<and> (\<forall>x. x \<notin> insert cl (insert rv (set (clones cloner (preorder sc)))) \<longrightarrow> h2 x = h x)
          \<and> h2 cl = (case cloner c of Inl e \<Rightarrow> h cl | Inr n \<Rightarrow> link n cl)
          \<and> parent (h2 rv) = parent (h rv) \<and> is_red (h2 rv) = is_red (h rv)
          \<and> (case cloner c of Inl e \<Rightarrow> sl = Leaf | Inr n \<Rightarrow> tree_at h2 (Some cl) (Some n) sl)
          \<and> set (inorder sl) = set (clones cloner (preorder sc)) \<and> distinct (inorder sl)"
proof -
  let ?F = "clone_step keys head rv cloner"
  from tree obtain l r where sc: "sc = Node l c r" by (cases sc) auto
  have pre: "preorder sc = c # tl (preorder sc)" by (simp add: sc)
  have cin: "c \<in> set (preorder sc)" by (simp add: sc)
  show ?thesis
  proof (cases "cloner c")
    case (Inl e)
    have "iterate ?F (Some a, Some cl, h) = Some (Inr (Some e, h))"
      using stepE[OF Inl] by (simp add: iterate_Break)
    moreover have "first_error cloner (preorder sc) = Some e" "clones cloner (preorder sc) = []"
      by (simp_all add: sc Inl)
    ultimately show ?thesis using Inl
      by (intro exI[of _ h] exI[of _ Leaf]) simp
  next
    case (Inr n)
    from fr cin Inr have n: "n \<notin> set (inorder sc)" "n \<noteq> rv" "n \<noteq> cl"
      "left (h n) = None" "right (h n) = None" by auto
    from link[OF Inr] have lk: "\<forall>x. x \<notin> {n, cl, rv} \<longrightarrow> link n x = h x"
      "left (link n n) = None" "right (link n n) = None" "parent (link n n) = Some cl"
      "parent (link n rv) = parent (h rv)" "is_red (link n rv) = is_red (h rv)" using n by auto
    have t1: "tree_at (link n) (Some a) (Some c) sc"
      using tree_at_frame[OF tree lk(1)] n notin by simp
    have tlsub: "set (tl (preorder sc)) \<subseteq> set (preorder sc)" by (auto simp add: sc)
    have cnot: "c \<notin> set (tl (preorder sc))"
      using d by (simp add: sc set_preorder)
    have fresh1: "\<forall>b\<in>set (tl (preorder sc)). \<forall>m. cloner b = Inr m \<longrightarrow>
        m \<notin> set (inorder sc) \<and> m \<noteq> rv \<and> m \<noteq> n \<and> left (link n m) = None \<and> right (link n m) = None"
    proof (intro ballI allI impI)
      fix b m assume b: "b \<in> set (tl (preorder sc))" and m: "cloner b = Inr m"
      from b tlsub have b': "b \<in> set (preorder sc)" by auto
      with fr m have f: "m \<notin> set (inorder sc)" "m \<noteq> rv" "m \<noteq> cl" "left (h m) = None" "right (h m) = None"
        by auto
      have "m \<noteq> n"
      proof
        assume "m = n"
        with inj b' cin m Inr have "b = c" by blast
        with b cnot show False by simp
      qed
      moreover from this f lk(1) have "link n m = h m" by simp
      ultimately show "m \<notin> set (inorder sc) \<and> m \<noteq> rv \<and> m \<noteq> n \<and> left (link n m) = None \<and> right (link n m) = None"
        using f by simp
    qed
    have pre1: "clone_pre cloner head rv (link n) sc n"
      unfolding clone_pre_def using d notin n lk fresh1 inj tlsub by (auto simp: subset_iff)
    from IH[OF t1 pre1 recs] obtain h2 where
      it: "iterate ?F (Some c, Some n, link n) =
            (case first_error cloner (tl (preorder sc)) of
               None \<Rightarrow> resume ?F (clone_up head c n h2)
             | Some e \<Rightarrow> Some (Inr (Some e, h2)))"
      and post: "clone_post rv (link n) h2 n (clones cloner (tl (preorder sc)))" by blast
    let ?cs = "clones cloner (tl (preorder sc))"
    from post have fr2: "\<forall>x. x \<notin> insert n (insert rv (set ?cs)) \<longrightarrow> h2 x = link n x"
      and pn: "parent (h2 n) = parent (link n n)" and prv: "parent (h2 rv) = parent (link n rv)"
      and crv: "is_red (h2 rv) = is_red (link n rv)"
      and sh: "\<exists>s'. tree_at h2 (parent (link n n)) (Some n) s' \<and> set (inorder s') = insert n (set ?cs) \<and> distinct (inorder s')"
      by (auto simp: clone_post_def)
    have csfacts: "\<forall>m\<in>set ?cs. m \<notin> set (inorder sc) \<and> m \<noteq> cl"
    proof
      fix m assume "m \<in> set ?cs"
      then obtain b where "b \<in> set (tl (preorder sc))" "cloner b = Inr m"
        using clones_subset by blast
      with fr tlsub show "m \<notin> set (inorder sc) \<and> m \<noteq> cl" by (auto simp: subset_iff)
    qed
    have cc: "c \<in> set (inorder sc)" by (simp add: sc)
    have "h2 c = link n c" using fr2 csfacts cc n notin by auto
    moreover have "link n c = h c" using lk(1) cc n notin by auto
    moreover have "parent (h c) = Some a" using tree by (simp add: sc)
    ultimately have pc: "parent (h2 c) = Some a" by simp
    have up: "clone_up head c n h2 = Inr (Continue (Some a, Some cl, h2))"
      using pc ah pn lk(4) by (simp add: clone_up_def)
    have it': "iterate ?F (Some c, Some n, link n) =
            (case first_error cloner (tl (preorder sc)) of
               None \<Rightarrow> iterate ?F (Some a, Some cl, h2)
             | Some e \<Rightarrow> Some (Inr (Some e, h2)))"
      using it up by (simp add: resume_def split: option.splits)
    have fe: "first_error cloner (preorder sc) = first_error cloner (tl (preorder sc))"
      and cl: "clones cloner (preorder sc) = n # ?cs"
      by (subst pre, simp add: Inr)+
    have "iterate ?F (Some a, Some cl, h) = iterate ?F (Some c, Some n, link n)"
      using step[OF Inr] by (simp add: iterate_Continue)
    with it' fe have e1: "iterate ?F (Some a, Some cl, h) =
            (case first_error cloner (preorder sc) of
               None \<Rightarrow> iterate ?F (Some a, Some cl, h2)
             | Some e \<Rightarrow> Some (Inr (Some e, h2)))" by simp
    have e2: "\<forall>x. x \<notin> insert cl (insert rv (set (clones cloner (preorder sc)))) \<longrightarrow> h2 x = h x"
      using fr2 lk(1) cl by auto
    have e3: "h2 cl = link n cl" using fr2 csfacts n notin by auto
    have e4: "parent (h2 rv) = parent (h rv)" "is_red (h2 rv) = is_red (h rv)"
      using prv crv lk(5,6) by simp_all
    from sh lk(4) obtain sl where "tree_at h2 (Some cl) (Some n) sl" "set (inorder sl) = insert n (set ?cs)"
      "distinct (inorder sl)" by auto
    with e1 e2 e3 e4 cl Inr show ?thesis
      by (intro exI[of _ h2] exI[of _ sl]) simp
  qed
qed


lemma clone_subtree:
  assumes "tree_at h pa (Some a) s" "clone_pre cloner head rv h s cl"
    "\<forall>b\<in>set (inorder s). keys b \<noteq> None"
  shows "\<exists>h'. iterate (clone_step keys head rv cloner) (Some a, Some cl, h) =
            (case first_error cloner (tl (preorder s)) of
               None \<Rightarrow> resume (clone_step keys head rv cloner) (clone_up head a cl h')
             | Some e \<Rightarrow> Some (Inr (Some e, h')))
          \<and> clone_post rv h h' cl (clones cloner (tl (preorder s)))"
  using assms
proof (induction s arbitrary: h a cl pa)
  case Leaf
  then show ?case by simp
next
  case (Node l a' r)
  let ?F = "clone_step keys head rv cloner"
  let ?cl = "clones cloner (preorder l)" and ?cr = "clones cloner (preorder r)"
  from Node.prems(1) have a': "a' = a" and tl: "tree_at h (Some a) (left (h a)) l"
    and tr: "tree_at h (Some a) (right (h a)) r" by auto
  from Node.prems(2) have d: "distinct (inorder l @ a # inorder r)"
    and notin: "head \<notin> set (inorder l @ a # inorder r)" "rv \<notin> set (inorder l @ a # inorder r)"
      "cl \<notin> set (inorder l @ a # inorder r)" "cl \<noteq> rv"
    and cl0: "left (h cl) = None" "right (h cl) = None"
    and fr: "\<forall>b\<in>set (preorder l @ preorder r). \<forall>n. cloner b = Inr n \<longrightarrow>
          n \<notin> set (inorder l @ a # inorder r) \<and> n \<noteq> rv \<and> n \<noteq> cl \<and> left (h n) = None \<and> right (h n) = None"
    and inj: "\<forall>b\<in>set (preorder l @ preorder r). \<forall>b'\<in>set (preorder l @ preorder r). \<forall>n.
          cloner b = Inr n \<longrightarrow> cloner b' = Inr n \<longrightarrow> b = b'"
    by (simp_all add: clone_pre_def a')
  from Node.prems(3) have recs: "\<forall>b\<in>set (inorder l). keys b \<noteq> None" "\<forall>b\<in>set (inorder r). keys b \<noteq> None"
    by simp_all
  have ah: "a \<noteq> head" using notin by simp
  have clfacts: "\<forall>m\<in>set ?cl. m \<notin> set (inorder l @ a # inorder r) \<and> m \<noteq> rv \<and> m \<noteq> cl \<and> m \<notin> set ?cr"
  proof
    fix m assume "m \<in> set ?cl"
    then obtain b where b: "b \<in> set (preorder l)" "cloner b = Inr m" using clones_subset by blast
    have "m \<notin> set ?cr"
    proof
      assume "m \<in> set ?cr"
      then obtain b' where b': "b' \<in> set (preorder r)" "cloner b' = Inr m" using clones_subset by blast
      with b inj have "b = b'" by auto
      with b b' d show False by (auto simp: set_preorder)
    qed
    with b fr show "m \<notin> set (inorder l @ a # inorder r) \<and> m \<noteq> rv \<and> m \<noteq> cl \<and> m \<notin> set ?cr" by auto
  qed
  have crfacts: "\<forall>m\<in>set ?cr. m \<notin> set (inorder l @ a # inorder r) \<and> m \<noteq> rv \<and> m \<noteq> cl"
  proof
    fix m assume "m \<in> set ?cr"
    then obtain b where b: "b \<in> set (preorder r)" "cloner b = Inr m" using clones_subset by blast
    with fr show "m \<notin> set (inorder l @ a # inorder r) \<and> m \<noteq> rv \<and> m \<noteq> cl" by auto
  qed
  have PL: "\<exists>hL sl. iterate ?F (Some a, Some cl, h) =
            (case first_error cloner (preorder l) of
               None \<Rightarrow> iterate ?F (Some a, Some cl, hL)
             | Some e \<Rightarrow> Some (Inr (Some e, hL)))
          \<and> (\<forall>x. x \<notin> insert cl (insert rv (set ?cl)) \<longrightarrow> hL x = h x)
          \<and> parent (hL cl) = parent (h cl) \<and> right (hL cl) = None \<and> parent (hL rv) = parent (h rv)
          \<and> is_red (hL rv) = is_red (h rv)
          \<and> tree_at hL (Some cl) (left (hL cl)) sl \<and> set (inorder sl) = set ?cl \<and> distinct (inorder sl)
          \<and> (first_error cloner (preorder l) = None \<longrightarrow> left (hL cl) \<noteq> None \<or> left (hL a) = None)"
  proof (cases l)
    case Leaf
    with tl have "left (h a) = None" by simp
    with Leaf cl0 show ?thesis
      by (intro exI[of _ h] exI[of _ Leaf]) simp
  next
    case (Node ll c lr)
    with tl have la: "left (h a) = Some c" and tc: "tree_at h (Some a) (Some c) l" by auto
    have kc: "keys c \<noteq> None" using recs Node by simp
    define link where "link = (\<lambda>n.
       let h1 = set_parent n (Some cl) (set_left cl (Some n) (set_red_val n (is_red (h c)) h))
       in if left (h1 c) = left (h1 head) then set_left rv (Some n) h1 else h1)"
    note csl = clone_step_left[where h=h and cl=cl and a=a and c=c and keys=keys and head=head
        and rv=rv and cloner=cloner, OF cl0(1) la kc]
    have stepE: "\<And>e. cloner c = Inl e \<Longrightarrow> ?F (Some a, Some cl, h) = Inr (Break (Some e, h))"
      by (simp add: csl)
    have step: "\<And>n. cloner c = Inr n \<Longrightarrow> ?F (Some a, Some cl, h) = Inr (Continue (Some c, Some n, link n))"
      by (simp add: csl link_def Let_def)
    have cin: "c \<in> set (preorder l @ preorder r)" using Node by simp
    have lk: "\<And>n. cloner c = Inr n \<Longrightarrow>
        (\<forall>x. x \<notin> {n, cl, rv} \<longrightarrow> link n x = h x) \<and> left (link n n) = left (h n) \<and>
        right (link n n) = right (h n) \<and> parent (link n n) = Some cl \<and>
        parent (link n rv) = parent (h rv) \<and> is_red (link n rv) = is_red (h rv) \<and>
        left (link n cl) = Some n \<and>
        right (link n cl) = right (h cl) \<and> parent (link n cl) = parent (h cl)"
    proof -
      fix n assume "cloner c = Inr n"
      with fr cin have "n \<noteq> cl" "n \<noteq> rv" by auto
      from link_left_heap[where h=h and v="is_red (h c)", OF this notin(4)]
      show "(\<forall>x. x \<notin> {n, cl, rv} \<longrightarrow> link n x = h x) \<and> left (link n n) = left (h n) \<and>
        right (link n n) = right (h n) \<and> parent (link n n) = Some cl \<and>
        parent (link n rv) = parent (h rv) \<and> is_red (link n rv) = is_red (h rv) \<and>
        left (link n cl) = Some n \<and>
        right (link n cl) = right (h cl) \<and> parent (link n cl) = parent (h cl)"
        unfolding link_def Let_def by blast
    qed
    have lk': "\<And>n. cloner c = Inr n \<Longrightarrow>
        (\<forall>x. x \<notin> {n, cl, rv} \<longrightarrow> link n x = h x) \<and> left (link n n) = left (h n) \<and>
        right (link n n) = right (h n) \<and> parent (link n n) = Some cl \<and>
        parent (link n rv) = parent (h rv) \<and> is_red (link n rv) = is_red (h rv)" using lk by blast
    have frl: "\<forall>b\<in>set (preorder l). \<forall>n. cloner b = Inr n \<longrightarrow>
          n \<notin> set (inorder l) \<and> n \<noteq> rv \<and> n \<noteq> cl \<and> left (h n) = None \<and> right (h n) = None"
      using fr by auto
    have injl: "\<forall>b\<in>set (preorder l). \<forall>b'\<in>set (preorder l). \<forall>n.
          cloner b = Inr n \<longrightarrow> cloner b' = Inr n \<longrightarrow> b = b'" using inj by auto
    have dl: "distinct (inorder l)" and nl: "head \<notin> set (inorder l)" "rv \<notin> set (inorder l)"
      "cl \<notin> set (inorder l)" using d notin by auto
    have "\<exists>h2 sl. iterate ?F (Some a, Some cl, h) =
            (case first_error cloner (preorder l) of
               None \<Rightarrow> iterate ?F (Some a, Some cl, h2)
             | Some e \<Rightarrow> Some (Inr (Some e, h2)))
          \<and> (\<forall>x. x \<notin> insert cl (insert rv (set ?cl)) \<longrightarrow> h2 x = h x)
          \<and> h2 cl = (case cloner c of Inl e \<Rightarrow> h cl | Inr n \<Rightarrow> link n cl)
          \<and> parent (h2 rv) = parent (h rv) \<and> is_red (h2 rv) = is_red (h rv)
          \<and> (case cloner c of Inl e \<Rightarrow> sl = Leaf | Inr n \<Rightarrow> tree_at h2 (Some cl) (Some n) sl)
          \<and> set (inorder sl) = set ?cl \<and> distinct (inorder sl)"
      by (rule clone_child[where sc=l and link=link, OF Node.IH(1) tc stepE step lk' ah dl nl notin(4) frl injl recs(1)])
    then obtain h2 sl where
      e1: "iterate ?F (Some a, Some cl, h) =
            (case first_error cloner (preorder l) of
               None \<Rightarrow> iterate ?F (Some a, Some cl, h2)
             | Some e \<Rightarrow> Some (Inr (Some e, h2)))"
      and e2: "\<forall>x. x \<notin> insert cl (insert rv (set ?cl)) \<longrightarrow> h2 x = h x"
      and e3: "h2 cl = (case cloner c of Inl e \<Rightarrow> h cl | Inr n \<Rightarrow> link n cl)"
      and e4: "parent (h2 rv) = parent (h rv)" "is_red (h2 rv) = is_red (h rv)"
      and e5: "case cloner c of Inl e \<Rightarrow> sl = Leaf | Inr n \<Rightarrow> tree_at h2 (Some cl) (Some n) sl"
      and e6: "set (inorder sl) = set ?cl" "distinct (inorder sl)"
      by blast
    have "parent (h2 cl) = parent (h cl) \<and> right (h2 cl) = None
          \<and> tree_at h2 (Some cl) (left (h2 cl)) sl
          \<and> (first_error cloner (preorder l) = None \<longrightarrow> left (h2 cl) \<noteq> None \<or> left (h2 a) = None)"
    proof (cases "cloner c")
      case (Inl e)
      then show ?thesis using e3 e5 cl0 Node by simp
    next
      case (Inr n)
      then show ?thesis using e3 e5 cl0 lk[OF Inr] by simp
    qed
    with e1 e2 e4 e6 show ?thesis
      by (intro exI[of _ h2] exI[of _ sl]) simp
  qed
  then obtain hL sl where
      L1: "iterate ?F (Some a, Some cl, h) =
            (case first_error cloner (preorder l) of
               None \<Rightarrow> iterate ?F (Some a, Some cl, hL)
             | Some e \<Rightarrow> Some (Inr (Some e, hL)))"
      and L2: "\<forall>x. x \<notin> insert cl (insert rv (set ?cl)) \<longrightarrow> hL x = h x"
      and L3: "parent (hL cl) = parent (h cl)" "right (hL cl) = None" "parent (hL rv) = parent (h rv)"
        "is_red (hL rv) = is_red (h rv)"
      and L4: "tree_at hL (Some cl) (left (hL cl)) sl" "set (inorder sl) = set ?cl" "distinct (inorder sl)"
      and L5: "first_error cloner (preorder l) = None \<longrightarrow> left (hL cl) \<noteq> None \<or> left (hL a) = None"
    by (elim exE conjE) (rule that)
  have pre_tl: "tl (preorder (Node l a' r)) = preorder l @ preorder r" by simp
  show ?case
  proof (cases "first_error cloner (preorder l)")
    case (Some e)
    have "tree_at hL (parent (h cl)) (Some cl) (Node sl cl Leaf)" using L4(1) L3(1,2) by simp
    moreover have "set (inorder (Node sl cl Leaf)) = insert cl (set ?cl)" using L4(2) by simp
    moreover have "distinct (inorder (Node sl cl Leaf))" using L4 clfacts by auto
    ultimately have sh: "\<exists>s'. tree_at hL (parent (h cl)) (Some cl) s' \<and> set (inorder s') = insert cl (set ?cl) \<and> distinct (inorder s')"
      by blast
    have "clones cloner (preorder l @ preorder r) = ?cl" "first_error cloner (preorder l @ preorder r) = Some e"
      using Some by (simp_all add: clones_append first_error_append)
    with L1 L2 L3 sh Some show ?thesis
      unfolding pre_tl clone_post_def by (intro exI[of _ hL]) simp
  next
    case None
    have aL: "hL a = h a" using L2 notin clfacts by auto
    have PR: "\<exists>hR sr. iterate ?F (Some a, Some cl, hL) =
            (case first_error cloner (preorder r) of
               None \<Rightarrow> resume ?F (clone_up head a cl hR)
             | Some e \<Rightarrow> Some (Inr (Some e, hR)))
          \<and> (\<forall>x. x \<notin> insert cl (insert rv (set ?cr)) \<longrightarrow> hR x = hL x)
          \<and> parent (hR cl) = parent (hL cl) \<and> left (hR cl) = left (hL cl) \<and> parent (hR rv) = parent (hL rv)
          \<and> is_red (hR rv) = is_red (hL rv)
          \<and> tree_at hR (Some cl) (right (hR cl)) sr \<and> set (inorder sr) = set ?cr \<and> distinct (inorder sr)"
    proof (cases r)
      case Leaf
      with tr aL have "right (hL a) = None" by simp
      with L5 None have "?F (Some a, Some cl, hL) = clone_up head a cl hL"
        by (intro clone_step_up[where h=hL and cl=cl and a=a]) simp_all
      then have "iterate ?F (Some a, Some cl, hL) = resume ?F (clone_up head a cl hL)"
        by (subst iterate_resume) simp
      with Leaf L3(2) show ?thesis
        by (intro exI[of _ hL] exI[of _ Leaf]) simp
    next
      case (Node rl c rr)
      with tr aL have ra: "right (hL a) = Some c" and tc0: "tree_at h (Some a) (Some c) r" by auto
      have tc: "tree_at hL (Some a) (Some c) r"
        using tree_at_frame[OF tc0 L2] notin clfacts by auto
      have kc: "keys c \<noteq> None" using recs Node by simp
      define link where "link = (\<lambda>n.
         let h1 = set_parent n (Some cl) (set_right cl (Some n) (set_red_val n (is_red (hL c)) hL))
         in if right (h1 c) = right (h1 head) then set_right rv (Some n) h1 else h1)"
      have c1: "left (hL cl) \<noteq> None \<or> left (hL a) = None" using L5 None by simp
      note csr = clone_step_right[where h=hL and cl=cl and a=a and c=c and keys=keys and head=head
          and rv=rv and cloner=cloner, OF c1 L3(2) ra kc]
      have stepE: "\<And>e. cloner c = Inl e \<Longrightarrow> ?F (Some a, Some cl, hL) = Inr (Break (Some e, hL))"
        by (simp add: csr)
      have step: "\<And>n. cloner c = Inr n \<Longrightarrow> ?F (Some a, Some cl, hL) = Inr (Continue (Some c, Some n, link n))"
        by (simp add: csr link_def Let_def)
      have cin: "c \<in> set (preorder l @ preorder r)" using Node by simp
      have lk: "\<And>n. cloner c = Inr n \<Longrightarrow>
          (\<forall>x. x \<notin> {n, cl, rv} \<longrightarrow> link n x = hL x) \<and> left (link n n) = left (hL n) \<and>
          right (link n n) = right (hL n) \<and> parent (link n n) = Some cl \<and>
          parent (link n rv) = parent (hL rv) \<and> is_red (link n rv) = is_red (hL rv) \<and>
          right (link n cl) = Some n \<and>
          left (link n cl) = left (hL cl) \<and> parent (link n cl) = parent (hL cl)"
      proof -
        fix n assume "cloner c = Inr n"
        with fr cin have "n \<noteq> cl" "n \<noteq> rv" by auto
        from link_right_heap[where h=hL and v="is_red (hL c)", OF this notin(4)]
        show "(\<forall>x. x \<notin> {n, cl, rv} \<longrightarrow> link n x = hL x) \<and> left (link n n) = left (hL n) \<and>
          right (link n n) = right (hL n) \<and> parent (link n n) = Some cl \<and>
          parent (link n rv) = parent (hL rv) \<and> is_red (link n rv) = is_red (hL rv) \<and>
          right (link n cl) = Some n \<and>
          left (link n cl) = left (hL cl) \<and> parent (link n cl) = parent (hL cl)"
          unfolding link_def Let_def by blast
      qed
      have lk': "\<And>n. cloner c = Inr n \<Longrightarrow>
          (\<forall>x. x \<notin> {n, cl, rv} \<longrightarrow> link n x = hL x) \<and> left (link n n) = left (hL n) \<and>
          right (link n n) = right (hL n) \<and> parent (link n n) = Some cl \<and>
          parent (link n rv) = parent (hL rv) \<and> is_red (link n rv) = is_red (hL rv)" using lk by blast
      have frr: "\<forall>b\<in>set (preorder r). \<forall>n. cloner b = Inr n \<longrightarrow>
            n \<notin> set (inorder r) \<and> n \<noteq> rv \<and> n \<noteq> cl \<and> left (hL n) = None \<and> right (hL n) = None"
      proof (intro ballI allI impI)
        fix b n assume b: "b \<in> set (preorder r)" "cloner b = Inr n"
        with fr have f: "n \<notin> set (inorder l @ a # inorder r)" "n \<noteq> rv" "n \<noteq> cl"
          "left (h n) = None" "right (h n) = None" by auto
        have "n \<notin> set ?cl"
        proof
          assume "n \<in> set ?cl"
          then obtain b' where b': "b' \<in> set (preorder l)" "cloner b' = Inr n" using clones_subset by blast
          with b inj have "b = b'" by auto
          with b b' d show False by (auto simp: set_preorder)
        qed
        with f L2 have "hL n = h n" by simp
        with f show "n \<notin> set (inorder r) \<and> n \<noteq> rv \<and> n \<noteq> cl \<and> left (hL n) = None \<and> right (hL n) = None"
          by simp
      qed
      have injr: "\<forall>b\<in>set (preorder r). \<forall>b'\<in>set (preorder r). \<forall>n.
            cloner b = Inr n \<longrightarrow> cloner b' = Inr n \<longrightarrow> b = b'" using inj by auto
      have dr: "distinct (inorder r)" and nr: "head \<notin> set (inorder r)" "rv \<notin> set (inorder r)"
        "cl \<notin> set (inorder r)" using d notin by auto
      have "\<exists>h3 sr. iterate ?F (Some a, Some cl, hL) =
              (case first_error cloner (preorder r) of
                 None \<Rightarrow> iterate ?F (Some a, Some cl, h3)
               | Some e \<Rightarrow> Some (Inr (Some e, h3)))
            \<and> (\<forall>x. x \<notin> insert cl (insert rv (set ?cr)) \<longrightarrow> h3 x = hL x)
            \<and> h3 cl = (case cloner c of Inl e \<Rightarrow> hL cl | Inr n \<Rightarrow> link n cl)
            \<and> parent (h3 rv) = parent (hL rv) \<and> is_red (h3 rv) = is_red (hL rv)
            \<and> (case cloner c of Inl e \<Rightarrow> sr = Leaf | Inr n \<Rightarrow> tree_at h3 (Some cl) (Some n) sr)
            \<and> set (inorder sr) = set ?cr \<and> distinct (inorder sr)"
        by (rule clone_child[where sc=r and link=link, OF Node.IH(2) tc stepE step lk' ah dr nr notin(4) frr injr recs(2)])
      then obtain h3 sr where
        e1: "iterate ?F (Some a, Some cl, hL) =
              (case first_error cloner (preorder r) of
                 None \<Rightarrow> iterate ?F (Some a, Some cl, h3)
               | Some e \<Rightarrow> Some (Inr (Some e, h3)))"
        and e2: "\<forall>x. x \<notin> insert cl (insert rv (set ?cr)) \<longrightarrow> h3 x = hL x"
        and e3: "h3 cl = (case cloner c of Inl e \<Rightarrow> hL cl | Inr n \<Rightarrow> link n cl)"
        and e4: "parent (h3 rv) = parent (hL rv)" "is_red (h3 rv) = is_red (hL rv)"
        and e5: "case cloner c of Inl e \<Rightarrow> sr = Leaf | Inr n \<Rightarrow> tree_at h3 (Some cl) (Some n) sr"
        and e6: "set (inorder sr) = set ?cr" "distinct (inorder sr)"
        by blast
      have a3: "h3 a = hL a" using e2 notin crfacts by auto
      have f3: "parent (h3 cl) = parent (hL cl) \<and> left (h3 cl) = left (hL cl)
            \<and> tree_at h3 (Some cl) (right (h3 cl)) sr
            \<and> (first_error cloner (preorder r) = None \<longrightarrow> right (h3 cl) \<noteq> None)"
      proof (cases "cloner c")
        case (Inl e)
        then show ?thesis using e3 e5 L3(2) Node by simp
      next
        case (Inr n)
        then show ?thesis using e3 e5 lk[OF Inr] by simp
      qed
      have "first_error cloner (preorder r) = None \<Longrightarrow>
           iterate ?F (Some a, Some cl, h3) = resume ?F (clone_up head a cl h3)"
      proof -
        assume "first_error cloner (preorder r) = None"
        with f3 have "right (h3 cl) \<noteq> None" by simp
        moreover have "left (h3 cl) \<noteq> None \<or> left (h3 a) = None" using c1 f3 a3 by simp
        ultimately have "?F (Some a, Some cl, h3) = clone_up head a cl h3"
          by (intro clone_step_up[where h=h3 and cl=cl and a=a]) simp_all
        then show ?thesis by (subst iterate_resume) simp
      qed
      with e1 have "iterate ?F (Some a, Some cl, hL) =
            (case first_error cloner (preorder r) of
               None \<Rightarrow> resume ?F (clone_up head a cl h3)
             | Some e \<Rightarrow> Some (Inr (Some e, h3)))" by (simp split: option.splits)
      with e2 e4 e6 f3 show ?thesis
        by (intro exI[of _ h3] exI[of _ sr]) simp
    qed
    then obtain hR sr where
      R1: "iterate ?F (Some a, Some cl, hL) =
            (case first_error cloner (preorder r) of
               None \<Rightarrow> resume ?F (clone_up head a cl hR)
             | Some e \<Rightarrow> Some (Inr (Some e, hR)))"
      and R2: "\<forall>x. x \<notin> insert cl (insert rv (set ?cr)) \<longrightarrow> hR x = hL x"
      and R3: "parent (hR cl) = parent (hL cl)" "left (hR cl) = left (hL cl)" "parent (hR rv) = parent (hL rv)"
        "is_red (hR rv) = is_red (hL rv)"
      and R4: "tree_at hR (Some cl) (right (hR cl)) sr" "set (inorder sr) = set ?cr" "distinct (inorder sr)"
      by (elim exE conjE) (rule that)
    have "tree_at hR (Some cl) (left (hL cl)) sl"
      using tree_at_frame[OF L4(1) R2] L4(2) clfacts by auto
    then have "tree_at hR (parent (h cl)) (Some cl) (Node sl cl sr)" using R3(1,2) L3(1) R4(1) by simp
    moreover have "set (inorder (Node sl cl sr)) = insert cl (set (?cl @ ?cr))" using L4(2) R4(2) by auto
    moreover have "distinct (inorder (Node sl cl sr))" using L4 R4 clfacts crfacts by auto
    ultimately have sh: "\<exists>s'. tree_at hR (parent (h cl)) (Some cl) s' \<and> set (inorder s') = insert cl (set (?cl @ ?cr)) \<and> distinct (inorder s')"
      by blast
    have cs: "clones cloner (preorder l @ preorder r) = ?cl @ ?cr"
      and fe: "first_error cloner (preorder l @ preorder r) = first_error cloner (preorder r)"
      using None by (simp_all add: clones_append first_error_append)
    have fr': "\<forall>x. x \<notin> insert cl (insert rv (set (?cl @ ?cr))) \<longrightarrow> hR x = h x"
      using L2 R2 by auto
    have "iterate ?F (Some a, Some cl, h) =
            (case first_error cloner (preorder r) of
               None \<Rightarrow> resume ?F (clone_up head a cl hR)
             | Some e \<Rightarrow> Some (Inr (Some e, hR)))" using L1 None R1 by simp
    with fr' L3 R3 sh cs fe show ?thesis
      unfolding pre_tl clone_post_def by (intro exI[of _ hR]) simp
  qed
qed

text \<open>C7. Let the tree hold records only, let the cloner return new unlinked records,
  different for different records, for the records of the tree in pre-order until it
  first raises, with the error \<open>e\<close>. Then \<open>clone\<close> ends with that same error \<open>e\<close>
  and returns no tree; the disposer has been called exactly once on each record the
  cloner had returned (\<open>ds\<close> has no repetition and holds exactly those records); and the
  sentinel and every record of the original tree are as they were.\<close>

theorem clone_rollback:
  assumes lk: "linked head h t"
    and recs: "\<forall>a\<in>set (inorder t). keys a \<noteq> None"
    and fail: "first_error cloner (preorder t) = Some e"
    and fresh: "\<forall>a\<in>set (inorder t). \<forall>n. cloner a = Inr n \<longrightarrow>
        n \<notin> set (inorder t) \<and> n \<noteq> head \<and> n \<noteq> rv \<and> keys n \<noteq> None \<and>
        left (h n) = None \<and> right (h n) = None"
    and inj: "\<forall>a\<in>set (inorder t). \<forall>b\<in>set (inorder t). \<forall>n.
        cloner a = Inr n \<longrightarrow> cloner b = Inr n \<longrightarrow> a = b"
    and rv: "rv \<noteq> head" "rv \<notin> set (inorder t)"
  shows "\<exists>h' ds. clone keys head rv cloner h = Some (Inr (RolledBack e h' ds))
          \<and> distinct ds \<and> set ds = set (clones cloner (preorder t))
          \<and> (\<forall>b\<in>insert head (set (inorder t)). h' b = h b)"
proof -
  let ?F = "clone_step keys head rv cloner"
  from fail obtain l a r where t: "t = Node l a r" by (cases t) auto
  from lk have ta: "tree_at h (Some head) (root head h) t" and d: "distinct (inorder t)"
    and hn: "head \<notin> set (inorder t)" by (simp_all add: linked_def)
  from ta t have ra: "root head h = Some a" by simp
  define h0 where "h0 = new_tree rv h"
  have h0: "\<forall>x. x \<noteq> rv \<longrightarrow> h0 x = h x" "parent (h0 rv) = None"
    by (simp_all add: h0_def new_tree_def)
  have r0: "root head h0 = Some a" using ra rv(1) h0 by (simp add: root_def)
  from recs t obtain k where ka: "keys a = Some k" by auto
  have ain: "a \<in> set (inorder t)" by (simp add: t)
  show ?thesis
  proof (cases "cloner a")
    case (Inl e')
    with fail have e': "e' = e" by (simp add: t)
    have cs: "clones cloner (preorder t) = []" using Inl by (simp add: t)
    have "iterate (dispose_step keys) (root rv h0, h0, []) = Some (Inr (h0, []))"
      by (rule iterate_Break) (simp add: dispose_step_def root_def h0)
    then have "rollback keys rv e h0 = Some (Inr (RolledBack e (clear rv h0) []))"
      by (simp add: rollback_def bindR_def)
    then have "clone keys head rv cloner h = Some (Inr (RolledBack e (clear rv h0) []))"
      using r0 Inl e' by (simp add: clone_def h0_def[symmetric] Let_def bindR_def to_key_def ka)
    moreover have "\<forall>b\<in>insert head (set (inorder t)). clear rv h0 b = h b"
      using rv h0 by (auto simp: clear_def set_right_def set_left_def set_parent_def)
    ultimately show ?thesis using cs by simp
  next
    case (Inr cl)
    with fresh ain have cl: "cl \<notin> set (inorder t)" "cl \<noteq> head" "cl \<noteq> rv" "keys cl \<noteq> None"
      "left (h cl) = None" "right (h cl) = None" by auto
    define h2 where "h2 = set_right rv (Some cl) (set_left rv (Some cl) (set_parent rv (Some cl)
       (set_red_val cl (is_red (h0 a)) (set_parent cl (Some rv) h0))))"
    have h2: "\<forall>x. x \<notin> {cl, rv} \<longrightarrow> h2 x = h x" "left (h2 cl) = None" "right (h2 cl) = None"
      "parent (h2 rv) = Some cl"
      using cl h0
      by (simp_all add: h2_def Let_def set_red_val_def set_red_def set_black_def set_parent_def
          set_left_def set_right_def)
    have t2: "tree_at h2 (Some head) (Some a) t"
      using tree_at_frame[OF ta h2(1)] cl rv ra by simp
    have tlsub: "set (tl (preorder t)) \<subseteq> set (inorder t)" by (auto simp: t set_preorder)
    have anot: "a \<notin> set (tl (preorder t))" using d by (simp add: t set_preorder)
    have fresh2: "\<forall>b\<in>set (tl (preorder t)). \<forall>n. cloner b = Inr n \<longrightarrow>
          n \<notin> set (inorder t) \<and> n \<noteq> rv \<and> n \<noteq> cl \<and> left (h2 n) = None \<and> right (h2 n) = None"
    proof (intro ballI allI impI)
      fix b n assume b: "b \<in> set (tl (preorder t))" and n: "cloner b = Inr n"
      from b tlsub have b': "b \<in> set (inorder t)" by auto
      with fresh n have f: "n \<notin> set (inorder t)" "n \<noteq> rv" "left (h n) = None" "right (h n) = None"
        by auto
      have "n \<noteq> cl"
      proof
        assume "n = cl"
        with inj b' ain n Inr have "b = a" by blast
        with b anot show False by simp
      qed
      moreover from this f h2(1) have "h2 n = h n" by simp
      ultimately show "n \<notin> set (inorder t) \<and> n \<noteq> rv \<and> n \<noteq> cl \<and> left (h2 n) = None \<and> right (h2 n) = None"
        using f by simp
    qed
    have inj2: "\<forall>b\<in>set (tl (preorder t)). \<forall>b'\<in>set (tl (preorder t)). \<forall>n.
          cloner b = Inr n \<longrightarrow> cloner b' = Inr n \<longrightarrow> b = b'"
      using inj tlsub by (auto simp: subset_iff)
    have pre: "clone_pre cloner head rv h2 t cl"
      unfolding clone_pre_def using d hn rv cl h2(2,3) fresh2 inj2 by simp
    let ?cs = "clones cloner (tl (preorder t))"
    from clone_subtree[OF t2 pre recs] obtain h3 where
      it: "iterate ?F (Some a, Some cl, h2) =
            (case first_error cloner (tl (preorder t)) of
               None \<Rightarrow> resume ?F (clone_up head a cl h3)
             | Some e \<Rightarrow> Some (Inr (Some e, h3)))"
      and post: "clone_post rv h2 h3 cl ?cs" by (elim exE conjE)
    have fe: "first_error cloner (tl (preorder t)) = Some e" using fail Inr by (simp add: t)
    have cs: "clones cloner (preorder t) = cl # ?cs" using Inr by (simp add: t)
    from it fe have it': "iterate ?F (Some a, Some cl, h2) = Some (Inr (Some e, h3))" by simp
    from post obtain s' where
      fr3: "\<forall>b. b \<notin> insert cl (insert rv (set ?cs)) \<longrightarrow> h3 b = h2 b"
      and prv: "parent (h3 rv) = parent (h2 rv)"
      and sh: "shape_at h3 (Some cl) s'" "set (inorder s') = insert cl (set ?cs)" "distinct (inorder s')"
      by (auto simp: clone_post_def dest: tree_at_shape)
    have csfacts: "\<forall>m\<in>set ?cs. m \<notin> set (inorder t) \<and> m \<noteq> head \<and> keys m \<noteq> None"
    proof
      fix m assume "m \<in> set ?cs"
      then obtain b where "b \<in> set (tl (preorder t))" "cloner b = Inr m" using clones_subset by blast
      with fresh tlsub show "m \<notin> set (inorder t) \<and> m \<noteq> head \<and> keys m \<noteq> None"
        by (auto simp: subset_iff)
    qed
    have recs': "\<And>c. c \<in> set (inorder s') \<Longrightarrow> keys c \<noteq> None"
      using sh(2) cl(4) csfacts by auto
    have rr: "root rv h3 = Some cl" using prv h2(4) by (simp add: root_def)
    from dispose_walk[where ds="[]" and keys=keys, OF sh(1) sh(3) recs'] obtain h4 where
      dw: "iterate (dispose_step keys) (Some cl, h3, []) = Some (Inr (h4, inorder s'))"
      and fr4: "\<forall>b. b \<notin> set (inorder s') \<longrightarrow> h4 b = h3 b" by auto
    have "rollback keys rv e h3 = Some (Inr (RolledBack e (clear rv h4) (inorder s')))"
      using dw rr by (simp add: rollback_def bindR_def)
    then have "clone keys head rv cloner h = Some (Inr (RolledBack e (clear rv h4) (inorder s')))"
      using r0 Inr it'
      by (simp add: clone_def h0_def[symmetric] h2_def[symmetric] Let_def bindR_def to_key_def ka)
    moreover have "\<forall>b\<in>insert head (set (inorder t)). clear rv h4 b = h b"
    proof
      fix b assume b: "b \<in> insert head (set (inorder t))"
      then have b1: "b \<noteq> rv" "b \<noteq> cl" "b \<notin> set ?cs" using rv cl csfacts hn by auto
      then have "clear rv h4 b = h4 b" by (simp add: clear_def set_right_def set_left_def set_parent_def)
      also have "h4 b = h3 b" using fr4 sh(2) b1 by simp
      also have "h3 b = h2 b" using fr3 b1 by simp
      also have "h2 b = h b" using h2(1) b1 by simp
      finally show "clear rv h4 b = h b" .
    qed
    ultimately show ?thesis using sh cs by simp
  qed
qed

lemma run_32_fail:
  "\<exists>h. run int_keys 0 [Insert 3, Insert 2] store0 = Some (Inr h)
     \<and> h 0 = \<lparr>left = Some 2, right = Some 3, is_red = False, parent = Some 3\<rparr>
     \<and> h 2 = \<lparr>left = None, right = None, is_red = True, parent = Some 3\<rparr>
     \<and> h 3 = \<lparr>left = Some 2, right = None, is_red = False, parent = Some 0\<rparr>
     \<and> h 43 = \<lparr>left = None, right = None, is_red = False, parent = None\<rparr>"
  by (simp add: eval_defs iterate.simps)

theorem clone_rollback_witness:
  "\<exists>h h' ds. run int_keys 0 [Insert 3, Insert 2] store0 = Some (Inr h)
     \<and> linked 0 h (Node (Node Leaf 2 Leaf) 3 Leaf)
     \<and> failing 3 = Inr 43 \<and> failing 2 = Inl (Thrown 7)
     \<and> clone int_keys 0 100 failing h = Some (Inr (RolledBack (Thrown 7) h' ds))
     \<and> distinct ds \<and> set ds = {43} \<and> h' 0 = h 0 \<and> h' 2 = h 2 \<and> h' 3 = h 3"
proof -
  let ?t = "Node (Node Leaf 2 Leaf) 3 Leaf"
  from run_32_fail obtain h where r: "run int_keys 0 [Insert 3, Insert 2] store0 = Some (Inr h)"
    and h: "h 0 = \<lparr>left = Some 2, right = Some 3, is_red = False, parent = Some 3\<rparr>"
     "h 2 = \<lparr>left = None, right = None, is_red = True, parent = Some 3\<rparr>"
     "h 3 = \<lparr>left = Some 2, right = None, is_red = False, parent = Some 0\<rparr>"
     "h 43 = \<lparr>left = None, right = None, is_red = False, parent = None\<rparr>"
    by blast
  have l: "linked 0 h ?t" by (simp add: linked_def root_def h)
  have recs: "\<forall>a\<in>set (inorder ?t). int_keys a \<noteq> None" by (simp add: int_keys_def)
  have fail: "first_error failing (preorder ?t) = Some (Thrown 7)" by (simp add: failing_def)
  have fresh: "\<forall>a\<in>set (inorder ?t). \<forall>n. failing a = Inr n \<longrightarrow>
        n \<notin> set (inorder ?t) \<and> n \<noteq> 0 \<and> n \<noteq> 100 \<and> int_keys n \<noteq> None \<and>
        left (h n) = None \<and> right (h n) = None"
    by (simp add: failing_def int_keys_def h)
  have inj: "\<forall>a\<in>set (inorder ?t). \<forall>b\<in>set (inorder ?t). \<forall>n.
        failing a = Inr n \<longrightarrow> failing b = Inr n \<longrightarrow> a = b"
    by (simp add: failing_def)
  have rv: "(100::nat) \<noteq> 0" "100 \<notin> set (inorder ?t)" by simp_all
  from clone_rollback[OF l recs fail fresh inj rv] obtain h' ds where
    "clone int_keys 0 100 failing h = Some (Inr (RolledBack (Thrown 7) h' ds))"
    "distinct ds" "set ds = set (clones failing (preorder ?t))"
    "\<forall>b\<in>insert 0 (set (inorder ?t)). h' b = h b" by blast
  then show ?thesis using r l by (auto simp: failing_def)
qed

end
